theory Spec2Isabelle
  imports Main "HOL-Library.Sublist"
begin

section \<open>JavaScript values and objects\<close>

text \<open>
  The values that travel in events, deltas and storage are JSON-like. Numbers are
  modelled as integers, which stand for themselves as long as they are safe integers
  (below \<open>2\<^sup>5\<^sup>3\<close> in absolute value). An object is an
  association list in insertion order with one entry per key; \<open>undefined\<close> is a value
  of its own, and reading a missing property yields it. Two values are not JSON, and
  only an event made on the client carries them in its payload: \<open>JFile\<close>, a browser
  \<open>File\<close> handle (with its name), and \<open>JElement\<close>, a mounted DOM element (with
  its name).

  JavaScript enumerates the keys of an object that are array indices first, in ascending
  order, and the other keys in insertion order after them. The association lists keep
  insertion order throughout; what is proved of merged objects below is stated on the
  key-to-value map (\<open>map_of\<close>), which does not depend on the order.
\<close>

datatype jsval =
    JUndefined
  | JNull
  | JBool bool
  | JNum int
  | JStr string
  | JObj "(string \<times> jsval) list"
  | JArr "jsval list"
  | JFile string
  | JElement string

type_synonym 'v obj = "(string \<times> 'v) list"

text \<open>JavaScript truthiness: \<open>undefined\<close>, \<open>null\<close>, \<open>false\<close>, \<open>0\<close> and \<open>""\<close> are falsy.\<close>

fun truthy :: "jsval \<Rightarrow> bool" where
  "truthy JUndefined = False"
| "truthy JNull = False"
| "truthy (JBool b) = b"
| "truthy (JNum n) = (n \<noteq> 0)"
| "truthy (JStr s) = (s \<noteq> [])"
| "truthy (JObj ps) = True"
| "truthy (JArr xs) = True"
| "truthy (JFile n) = True"
| "truthy (JElement n) = True"

text \<open>\<open>o.k\<close> on an object of values: the stored value, or \<open>undefined\<close>.\<close>

definition get_prop :: "jsval obj \<Rightarrow> string \<Rightarrow> jsval" where
  "get_prop ob k = (case map_of ob k of None \<Rightarrow> JUndefined | Some v \<Rightarrow> v)"

text \<open>\<open>k in o\<close> for an own property.\<close>

definition has_prop :: "'v obj \<Rightarrow> string \<Rightarrow> bool" where
  "has_prop ob k = (map_of ob k \<noteq> None)"

text \<open>\<open>o[k] = v\<close>: an existing key keeps its position, a new key goes last.\<close>

fun set_prop :: "string \<Rightarrow> 'v \<Rightarrow> 'v obj \<Rightarrow> 'v obj" where
  "set_prop k v [] = [(k, v)]"
| "set_prop k v ((k', v') # ps) =
     (if k = k' then (k, v) # ps else (k', v') # set_prop k v ps)"

text \<open>\<open>delete o[k]\<close>.\<close>

definition delete_prop :: "string \<Rightarrow> 'v obj \<Rightarrow> 'v obj" where
  "delete_prop k ob = filter (\<lambda>p. fst p \<noteq> k) ob"

text \<open>
  Object spread \<open>{...a, ...b}\<close> copies the properties of \<open>a\<close>, then those of \<open>b\<close>, into a
  fresh object, each by assignment.
\<close>

definition spread_into :: "'v obj \<Rightarrow> 'v obj \<Rightarrow> 'v obj" where
  "spread_into target src = fold (\<lambda>p acc. set_prop (fst p) (snd p) acc) src target"

definition spread2 :: "'v obj \<Rightarrow> 'v obj \<Rightarrow> 'v obj" where
  "spread2 a b = spread_into (spread_into [] a) b"

section \<open>Delta application\<close>

text \<open>
  \<^verbatim>\<open>export const applyDelta = (state, delta) => { return { ...state, ...delta }; };\<close>
\<close>

definition applyDelta :: "'v obj \<Rightarrow> 'v obj \<Rightarrow> 'v obj" where
  "applyDelta state delta = spread2 state delta"

text \<open>
  Modelled from the spec: the per-substate dispatchers \<open>dispatch[substate]\<close> used by the
  inbound handler come from \<open>utils/context.js\<close>, which is not part of the sources. Per
  the spec (4.3) each one merges the fields it is given into the current snapshot of its
  substate, with \<open>applyDelta\<close> as the reducer, and a substate seen for the first time
  starts from the empty snapshot.

  The loop over the delta is the source's
  \<^verbatim>\<open>for (const substate in update.delta) { dispatch[substate](update.delta[substate]); }\<close>
\<close>

type_synonym fields = "jsval obj"
type_synonym delta = "fields obj"

definition dispatch :: "string \<Rightarrow> fields \<Rightarrow> fields obj \<Rightarrow> fields obj" where
  "dispatch substate d store =
     set_prop substate
       (applyDelta (case map_of store substate of None \<Rightarrow> [] | Some snap \<Rightarrow> snap) d) store"

definition dispatch_delta :: "delta \<Rightarrow> fields obj \<Rightarrow> fields obj" where
  "dispatch_delta dl store = fold (\<lambda>p st. dispatch (fst p) (snd p) st) dl store"

section \<open>Strings\<close>

text \<open>
  \<open>s.split(c)\<close> for a one-character separator: always at least one piece, the pieces
  never contain the separator.
\<close>

fun split_on :: "char \<Rightarrow> string \<Rightarrow> string list" where
  "split_on c [] = [[]]"
| "split_on c (x # xs) =
     (if x = c then [] # split_on c xs
      else (case split_on c xs of [] \<Rightarrow> [[x]] | w # ws \<Rightarrow> (x # w) # ws))"


text \<open>
  \<open>s.trim()\<close>: strips white space and line terminators at both ends. A character here
  is a code unit below 256; among those JavaScript counts as white space: tab, line feed,
  vertical tab, form feed, carriage return, space and the no-break space U+00A0.
\<close>

definition is_ws :: "char \<Rightarrow> bool" where
  "is_ws c = (c \<in> set [CHR '' '', CHR 0x09, CHR 0x0A, CHR 0x0B, CHR 0x0C, CHR 0x0D, CHR 0xA0])"


text \<open>Decimal rendering, for property keys made from numbers.\<close>

fun string_of_nat :: "nat \<Rightarrow> string" where
  "string_of_nat n =
     (if n < 10 then [char_of (48 + n)]
      else string_of_nat (n div 10) @ [char_of (48 + n mod 10)])"

definition string_of_int :: "int \<Rightarrow> string" where
  "string_of_int i = (if i < 0 then CHR ''-'' # string_of_nat (nat (- i)) else string_of_nat (nat i))"

fun join_comma :: "string list \<Rightarrow> string" where
  "join_comma [] = []"
| "join_comma [s] = s"
| "join_comma (s # t # ts) = s @ '','' @ join_comma (t # ts)"

text \<open>
  The string a value becomes when it is used as a property key (\<open>o[v]\<close>). A number is
  an integer here and prints in decimal, as JavaScript prints the integers below
  \<open>10\<^sup>2\<^sup>1\<close> in absolute value.
\<close>

fun to_key :: "jsval \<Rightarrow> string" where
  "to_key JUndefined = ''undefined''"
| "to_key JNull = ''null''"
| "to_key (JBool b) = (if b then ''true'' else ''false'')"
| "to_key (JNum n) = string_of_int n"
| "to_key (JStr s) = s"
| "to_key (JObj ps) = ''[object Object]''"
| "to_key (JArr xs) =
     join_comma (map (\<lambda>x. if x = JUndefined \<or> x = JNull then [] else to_key x) xs)"
| "to_key (JFile n) = ''[object File]''"
| "to_key (JElement n) = ''[object HTMLElement]''"

section \<open>Session token\<close>

text \<open>
  The browser, when there is one (\<open>typeof window !== "undefined"\<close>): what the engine
  reads back from it is the session storage.
\<close>

record browser =
  sessionStorage :: "string obj"

record event =
  name :: string
  payload :: "jsval obj"
  handler :: "string option"
  token :: "string option"
  router_data :: "jsval obj option"

datatype socket = Socket nat

datatype controller = AbortController

text \<open>Calls to the external collaborators, in the order they are made.\<close>

datatype effect =
    WindowOpen jsval
  | RouterPush jsval
  | ConsoleLog "jsval list"
  | CookiesRemove jsval "jsval obj"
  | LocalStorageClear
  | LocalStorageRemoveItem jsval
  | ClipboardWriteText jsval
  | Download jsval jsval
  | Alert jsval
  | Focus string
  | SetValue string jsval
  | Eval jsval
  | Callback jsval
  | SocketEmit event
  | CookiesSet string jsval "jsval obj"
  | LocalStorageSetItem string jsval
  | AxiosPost string "string option" "jsval list"

text \<open>
  The module-level variables (\<open>token\<close>, \<open>event_processing\<close>, \<open>event_queue\<close>,
  \<open>upload_controllers\<close>), the ref \<open>socket\<close> of \<open>useEventLoop\<close>, the reducers' state, the
  router singleton and the browser. \<open>token_var\<close> is the variable \<open>token\<close> (the name is
  taken by the event field); \<open>None\<close> is its initial \<open>undefined\<close>.

  \<open>suspended\<close> holds the calls of \<open>processEvent\<close> that stand at an \<open>await\<close> while
  other code runs, each with what it does when it resumes: \<open>processEvent\<close> awaits the
  dispatch of an event (lines 288 and 290), and \<open>applyEvent\<close> awaits the promise that
  the script of a \<open>_call_script\<close> event returned (line 195), after which it calls the
  callback. In both cases the dispatch sent nothing, and the resumed \<open>processEvent\<close>
  goes on at line 293 with the connection it was called with.

  Four fields are history variables, written but never read by the program:
  \<open>enqueued\<close> lists every event pushed on the queue, \<open>dequeued\<close> every event shifted off
  it, \<open>awaiting\<close> the events emitted on the socket whose own last update has not come
  back over the socket, and \<open>final_mark\<close> is the length that the log of effects had
  when the last inbound update with \<open>final = true\<close> was handled, whatever its source.
\<close>

datatype continuation = AfterScript socket jsval | AfterDispatch socket

record sys =
  token_var :: "string option"
  window :: "browser option"
  event_processing :: bool
  event_queue :: "event list"
  upload_controllers :: "controller obj"
  socket_current :: "socket option"
  app_state :: "fields obj"
  router :: "jsval obj"
  effects :: "effect list"
  enqueued :: "event list"
  dequeued :: "event list"
  awaiting :: "event list"
  final_mark :: nat
  suspended :: "continuation list"

text \<open>
  The events emitted on the socket since the last inbound update with \<open>final = true\<close>
  was handled: those of the \<open>socket.emit\<close> calls logged after the mark.
\<close>

fun emitted :: "effect list \<Rightarrow> event list" where
  "emitted [] = []"
| "emitted (SocketEmit e # es) = e # emitted es"
| "emitted (x # es) = emitted es"

definition since_final :: "sys \<Rightarrow> event list" where
  "since_final st = emitted (drop (final_mark st) (effects st))"

definition TOKEN_KEY :: string where
  "TOKEN_KEY = ''token''"

text \<open>
  \<open>getToken\<close>. The argument \<open>uuid\<close> is what \<open>generateUUID()\<close> returns when it is
  called (it reads the clock and \<open>Math.random\<close>). A string is truthy when it is not
  empty; \<open>getItem\<close> of a missing key is \<open>null\<close>, here \<open>None\<close>.
\<close>

definition truthy_str :: "string option \<Rightarrow> bool" where
  "truthy_str t = (case t of None \<Rightarrow> False | Some s \<Rightarrow> s \<noteq> [])"

definition getToken :: "string \<Rightarrow> sys \<Rightarrow> string option \<times> sys" where
  "getToken uuid st =
     (if truthy_str (token_var st) then (token_var st, st)
      else (case window st of
              None \<Rightarrow> (token_var st, st)
            | Some w \<Rightarrow>
                let w1 = (if \<not> truthy_str (map_of (sessionStorage w) TOKEN_KEY)
                          then w\<lparr>sessionStorage := set_prop TOKEN_KEY uuid (sessionStorage w)\<rparr>
                          else w);
                    t = map_of (sessionStorage w1) TOKEN_KEY
                in (t, st\<lparr>token_var := t, window := Some w1\<rparr>)))"

section \<open>Client storage\<close>

text \<open>
  One entry of the client-storage configuration: \<open>{name?, sync?, ...options}\<close>.
  \<open>options.name || state_key\<close> takes the state key when the name is missing or empty.
\<close>

record storage_options =
  opt_name :: "string option"
  opt_sync :: "bool option"
  opt_rest :: "jsval obj"

record client_storage =
  cookies :: "storage_options obj option"
  local_storage :: "storage_options obj option"

definition name_or :: "storage_options \<Rightarrow> string \<Rightarrow> string" where
  "name_or options state_key =
     (case opt_name options of
        None \<Rightarrow> state_key
      | Some n \<Rightarrow> if n = [] then state_key else n)"

text \<open>
  \<open>hydrateClientStorage\<close>. \<open>jar\<close> is what \<open>cookies.get\<close> reads, \<open>win\<close> the contents of
  \<open>localStorage\<close> when there is a window.
\<close>

definition hydrate_cookie :: "jsval obj \<Rightarrow> string \<times> storage_options \<Rightarrow> jsval obj \<Rightarrow> jsval obj" where
  "hydrate_cookie jar entry client_storage_values =
     (let state_key = fst entry;
          cookie_options = snd entry;
          cookie_name = name_or cookie_options state_key;
          cookie_value = get_prop jar cookie_name
      in if cookie_value \<noteq> JUndefined
         then set_prop state_key (get_prop jar cookie_name) client_storage_values
         else client_storage_values)"

definition hydrate_local :: "string obj \<Rightarrow> string \<times> storage_options \<Rightarrow> jsval obj \<Rightarrow> jsval obj" where
  "hydrate_local ls entry client_storage_values =
     (let state_key = fst entry;
          options = snd entry
      in case map_of ls (name_or options state_key) of
           None \<Rightarrow> client_storage_values
         | Some local_storage_value \<Rightarrow>
             set_prop state_key (JStr local_storage_value) client_storage_values)"

definition hydrateClientStorage ::
  "client_storage \<Rightarrow> jsval obj \<Rightarrow> string obj option \<Rightarrow> jsval obj" where
  "hydrateClientStorage cs jar win =
     (let v1 = (case cookies cs of
                  None \<Rightarrow> []
                | Some cfg \<Rightarrow> fold (hydrate_cookie jar) cfg []);
          v2 = (case local_storage cs of
                  None \<Rightarrow> v1
                | Some cfg \<Rightarrow>
                    (case win of
                       None \<Rightarrow> v1
                     | Some ls \<Rightarrow> fold (hydrate_local ls) cfg v1))
      in if cookies cs \<noteq> None \<or> local_storage cs \<noteq> None then v2 else [])"

text \<open>
  The only reader of \<open>sync\<close>: the storage listener of \<open>useEventLoop\<close> maps the external
  names of the entries with \<open>sync\<close> set to their state keys.
\<close>

definition storage_to_state_map :: "client_storage \<Rightarrow> bool \<Rightarrow> string obj" where
  "storage_to_state_map cs window_defined =
     (case local_storage cs of
        None \<Rightarrow> []
      | Some cfg \<Rightarrow>
          if window_defined
          then fold (\<lambda>entry m.
                  if opt_sync (snd entry) = Some True
                  then set_prop (name_or (snd entry) (fst entry)) (fst entry) m
                  else m) cfg []
          else [])"

text \<open>Replaces the \<open>sync\<close> option of every local-storage entry.\<close>

definition with_sync :: "(string \<Rightarrow> bool option) \<Rightarrow> client_storage \<Rightarrow> client_storage" where
  "with_sync f cs =
     cs\<lparr>local_storage :=
          map_option (map (\<lambda>entry. (fst entry, (snd entry)\<lparr>opt_sync := f (fst entry)\<rparr>)))
            (local_storage cs)\<rparr>"

text \<open>
  \<open>applyClientStorageDelta\<close>: the writes it makes, in order. It reads nothing from the
  stores, so the list of writes is all it does.
\<close>

definition unqualified_states :: "delta \<Rightarrow> string list" where
  "unqualified_states dl = filter (\<lambda>key. length (split_on CHR ''.'' key) = 1) (map fst dl)"

text \<open>
  \<open>client_storage.cookies && state_key in client_storage.cookies\<close>, then
  \<open>client_storage.cookies[state_key]\<close>; likewise for \<open>local_storage\<close>.
\<close>

definition cookie_entry :: "client_storage \<Rightarrow> string \<Rightarrow> storage_options option" where
  "cookie_entry cs state_key =
     (case cookies cs of None \<Rightarrow> None | Some cfg \<Rightarrow> map_of cfg state_key)"

definition local_entry :: "client_storage \<Rightarrow> string \<Rightarrow> storage_options option" where
  "local_entry cs state_key =
     (case local_storage cs of None \<Rightarrow> None | Some cfg \<Rightarrow> map_of cfg state_key)"

definition storage_write ::
  "client_storage \<Rightarrow> bool \<Rightarrow> string \<Rightarrow> string \<Rightarrow> jsval \<Rightarrow> effect list" where
  "storage_write cs window_defined substate key v =
     (let state_key = substate @ ''.'' @ key in
      case cookie_entry cs state_key of
        Some cookie_options \<Rightarrow>
          [CookiesSet (name_or cookie_options state_key) v (opt_rest cookie_options)]
      | None \<Rightarrow>
          (case local_entry cs state_key of
             Some options \<Rightarrow>
               if window_defined then [LocalStorageSetItem (name_or options state_key) v] else []
           | None \<Rightarrow> []))"

definition applyClientStorageDelta :: "client_storage \<Rightarrow> bool \<Rightarrow> delta \<Rightarrow> effect list" where
  "applyClientStorageDelta cs window_defined dl =
     (if (case unqualified_states dl of
            [u] \<Rightarrow> (let main_state = (case map_of dl u of None \<Rightarrow> [] | Some m \<Rightarrow> m)
                    in get_prop main_state ''is_hydrated'' \<noteq> JUndefined
                       \<and> \<not> truthy (get_prop main_state ''is_hydrated''))
          | _ \<Rightarrow> False)
      then []
      else concat (map (\<lambda>sub. concat (map (\<lambda>fld.
              storage_write cs window_defined (fst sub) (fst fld) (snd fld)) (snd sub))) dl))"

section \<open>Calls and the application context\<close>

text \<open>
  A call either returns a value or throws; an \<open>async\<close> function that throws rejects its
  promise, which an \<open>await\<close> turns into a throw again. A call of an \<open>async\<close> function
  may also stand at an \<open>await\<close> when control goes back to its caller: it is then
  \<open>Suspended\<close>, and what is left of it is in \<open>suspended\<close>.
\<close>

datatype 'a completion = Returned 'a | Threw | Suspended

text \<open>
  The inbound message \<open>{delta, events, final}\<close>, as decoded: each of the three
  properties may be missing (\<open>None\<close> is \<open>undefined\<close>). The type is declared here
  because the JSON5 decoder of the context produces it.
\<close>

record update =
  delta :: "delta option"
  events :: "event list option"
  final :: "bool option"

text \<open>
  What the enclosing application supplies: \<open>initialEvents()\<close> of \<open>utils/context.js\<close>, the
  client-storage configuration, the \<open>refs\<close> dictionary filled by the rendering layer
  (\<open>True\<close> for a ref whose \<open>current\<close> is a mounted element), the identifier that
  \<open>generateUUID()\<close> returns, and the decoder \<open>JSON5.parse\<close> (\<open>None\<close> when it throws).

  Two more components say how the calls are scheduled. \<open>thenable\<close> tells whether
  evaluating the code of a \<open>_call_script\<close> event gives a promise (a value with a
  \<open>then\<close> function); the script itself is an external plugin. \<open>overtaken k\<close> tells
  whether other code runs between the \<open>k\<close>-th dispatch of \<open>processEvent\<close> (counted
  from 0) and the resumption after its \<open>await\<close>: the \<open>await\<close> always yields to the
  microtask queue, and code of the same task runs first (the next line of the same
  progress tick of an upload, the next packet of the same transport payload, the next
  call of \<open>addEvents\<close>). With \<open>overtaken k\<close> false the resumption follows the dispatch
  at once.
\<close>

record ctx =
  initialEvents :: "event list"
  storage_config :: client_storage
  refs :: "bool obj"
  new_uuid :: string
  json5_parse :: "string \<Rightarrow> update option"
  thenable :: "jsval \<Rightarrow> bool"
  overtaken :: "nat \<Rightarrow> bool"

definition log :: "effect \<Rightarrow> sys \<Rightarrow> sys" where
  "log e st = st\<lparr>effects := effects st @ [e]\<rparr>"

section \<open>Uploads\<close>

text \<open>
  \<open>files === undefined || files.length === 0\<close>; \<open>null.length\<close> throws, an object has
  the \<open>length\<close> stored under that key, a number, a boolean, a file or an element has
  none.
\<close>

fun files_absent :: "jsval \<Rightarrow> bool completion" where
  "files_absent JUndefined = Returned True"
| "files_absent JNull = Threw"
| "files_absent (JArr xs) = Returned (xs = [])"
| "files_absent (JStr s) = Returned (s = [])"
| "files_absent (JObj ps) = Returned (get_prop ps ''length'' = JNum 0)"
| "files_absent v = Returned False"

fun is_file :: "jsval \<Rightarrow> bool" where
  "is_file (JFile n) = True"
| "is_file v = False"

datatype upload_result = ReturnedFalse | ReturnedResponse jsval

datatype upload_phase = Settled "upload_result completion" | Pending

text \<open>How the promise of \<open>axios.post\<close> settles; the three rejections are the three
  branches of the \<open>catch\<close> block.\<close>

datatype axios_outcome =
    Fulfilled jsval
  | RejectedResponse jsval
  | RejectedRequest jsval
  | RejectedOther jsval

text \<open>
  \<open>upload_controllers[upload_id]\<close> is truthy for a registered controller, and also
  for the names that a plain object inherits from \<open>Object.prototype\<close>.
\<close>

definition object_prototype_names :: "string list" where
  "object_prototype_names =
     [''constructor'', ''__defineGetter__'', ''__defineSetter__'', ''hasOwnProperty'',
      ''__lookupGetter__'', ''__lookupSetter__'', ''isPrototypeOf'', ''propertyIsEnumerable'',
      ''toString'', ''valueOf'', ''__proto__'', ''toLocaleString'']"

definition controller_found :: "controller obj \<Rightarrow> string \<Rightarrow> bool" where
  "controller_found table upload_id =
     (has_prop table upload_id \<or> upload_id \<in> set object_prototype_names)"

text \<open>
  \<open>uploadFiles\<close> up to its \<open>await\<close>: the two guards, the request configuration (which
  calls \<open>getToken\<close>), the form data (\<open>forEach\<close> and \<open>append\<close> throw unless \<open>files\<close> is an
  array of files), the registration of the controller and the request itself.
\<close>

definition uploadFiles_begin ::
  "ctx \<Rightarrow> string \<Rightarrow> jsval \<Rightarrow> string \<Rightarrow> jsval \<Rightarrow> sys \<Rightarrow> upload_phase \<times> sys" where
  "uploadFiles_begin cx hdl files upload_id on_upload_progress st =
     (case files_absent files of
        Returned True \<Rightarrow> (Settled (Returned ReturnedFalse), st)
      | Returned False \<Rightarrow>
          if controller_found (upload_controllers st) upload_id
          then (Settled (Returned ReturnedFalse),
                log (ConsoleLog [JStr ''Upload already in progress for '', JStr upload_id]) st)
          else (case getToken (new_uuid cx) st of
                  (tok, st1) \<Rightarrow>
                    (case files of
                       JArr fs \<Rightarrow>
                         if list_all is_file fs
                         then (Pending,
                               log (AxiosPost hdl tok fs)
                                 (st1\<lparr>upload_controllers :=
                                        set_prop upload_id AbortController (upload_controllers st1)\<rparr>))
                         else (Settled Threw, st1)
                     | _ \<Rightarrow> (Settled Threw, st1)))
      | _ \<Rightarrow> (Settled Threw, st))"

text \<open>\<open>uploadFiles\<close> from the settling of the request: \<open>try\<close>, \<open>catch\<close>, \<open>finally\<close>.\<close>

definition uploadFiles_settle ::
  "string \<Rightarrow> axios_outcome \<Rightarrow> sys \<Rightarrow> upload_result completion \<times> sys" where
  "uploadFiles_settle upload_id outcome st =
     (case (case outcome of
              Fulfilled resp \<Rightarrow> (ReturnedResponse resp, st)
            | RejectedResponse d \<Rightarrow> (ReturnedFalse, log (ConsoleLog [d]) st)
            | RejectedRequest rq \<Rightarrow> (ReturnedFalse, log (ConsoleLog [rq]) st)
            | RejectedOther msg \<Rightarrow> (ReturnedFalse, log (ConsoleLog [msg]) st)) of
        (r, st1) \<Rightarrow>
          (Returned r,
           st1\<lparr>upload_controllers := delete_prop upload_id (upload_controllers st1)\<rparr>))"

text \<open>A whole call of \<open>uploadFiles\<close>, for a request that settles with \<open>outcome\<close>.\<close>

definition uploadFiles ::
  "ctx \<Rightarrow> string \<Rightarrow> jsval \<Rightarrow> string \<Rightarrow> jsval \<Rightarrow> axios_outcome \<Rightarrow> sys
     \<Rightarrow> upload_result completion \<times> sys" where
  "uploadFiles cx hdl files upload_id on_upload_progress outcome st =
     (case uploadFiles_begin cx hdl files upload_id on_upload_progress st of
        (Settled r, st1) \<Rightarrow> (r, st1)
      | (Pending, st1) \<Rightarrow> uploadFiles_settle upload_id outcome st1)"

text \<open>
  \<open>applyRestEvent\<close> starts the upload without awaiting it (a rejection of its promise
  goes nowhere) and reports that nothing was sent.
\<close>

definition applyRestEvent :: "ctx \<Rightarrow> event \<Rightarrow> socket option \<Rightarrow> sys \<Rightarrow> bool completion \<times> sys" where
  "applyRestEvent cx event sock st =
     (if handler event = Some ''uploadFiles''
      then (Returned False,
            snd (uploadFiles_begin cx (name event)
                   (get_prop (payload event) ''files'')
                   (to_key (get_prop (payload event) ''upload_id''))
                   (get_prop (payload event) ''on_upload_progress'') st))
      else (Returned False, st))"

section \<open>The event queue\<close>

text \<open>
  The value passed as \<open>socket\<close> to \<open>queueEvents\<close>, which reads its \<open>current\<close>: the ref of
  \<open>useEventLoop\<close>, or (from inside \<open>applyEvent\<close>) the connection object itself, which
  has no such property; reading a property of \<open>null\<close> throws.
\<close>

datatype sockarg = SocketRef | SocketObj "socket option"

fun current :: "sockarg \<Rightarrow> sys \<Rightarrow> socket option completion" where
  "current SocketRef st = Returned (socket_current st)"
| "current (SocketObj (Some s)) st = Returned None"
| "current (SocketObj None) st = Threw"

text \<open>\<open>(({pathname, query, asPath}) => ({pathname, query, asPath}))(Router)\<close>\<close>

definition router_descriptor :: "jsval obj \<Rightarrow> jsval obj" where
  "router_descriptor r =
     [(''pathname'', get_prop r ''pathname''), (''query'', get_prop r ''query''),
      (''asPath'', get_prop r ''asPath'')]"

text \<open>
  \<open>{...event.payload.options}\<close>: the own properties of an object; the elements of an
  array or the characters of a string under their indices; nothing for any other value.
\<close>

definition indexed :: "jsval list \<Rightarrow> jsval obj" where
  "indexed xs = zip (map string_of_nat [0 ..< length xs]) xs"

definition spread_options :: "jsval \<Rightarrow> jsval obj" where
  "spread_options v =
     (case v of
        JObj ps \<Rightarrow> spread_into [] ps
      | JArr xs \<Rightarrow> indexed xs
      | JStr cs \<Rightarrow> indexed (map (\<lambda>c. JStr [c]) cs)
      | _ \<Rightarrow> [])"

text \<open>
  \<open>event.payload.ref in refs ? refs[event.payload.ref] : event.payload.ref\<close>, then
  \<open>ref.current\<close>. A registered ref holds its element when it is mounted and \<open>null\<close>
  when it is not; \<open>in\<close> also finds the names \<open>refs\<close> inherits, whose values have no
  \<open>current\<close>. Otherwise the payload's own value is the ref: reading \<open>current\<close> throws
  on \<open>undefined\<close> and \<open>null\<close>, gives the stored property of an object, and
  \<open>undefined\<close> for any other value.
\<close>

definition ref_current :: "ctx \<Rightarrow> jsval \<Rightarrow> jsval completion" where
  "ref_current cx r =
     (case map_of (refs cx) (to_key r) of
        Some mounted \<Rightarrow> Returned (if mounted then JElement (to_key r) else JNull)
      | None \<Rightarrow>
          if to_key r \<in> set object_prototype_names then Returned JUndefined
          else (case r of
                  JUndefined \<Rightarrow> Threw
                | JNull \<Rightarrow> Threw
                | JObj ps \<Rightarrow> Returned (get_prop ps ''current'')
                | _ \<Rightarrow> Returned JUndefined))"

text \<open>The names that \<open>applyEvent\<close> handles on the client, in the order it tests them.\<close>

definition special_names :: "string list" where
  "special_names =
     [''_redirect'', ''_console'', ''_remove_cookie'', ''_clear_local_storage'',
      ''_remove_local_storage'', ''_set_clipboard'', ''_download'', ''_alert'',
      ''_set_focus'', ''_set_value'', ''_call_script'']"

text \<open>The lines under "Update token and router data (if missing)".\<close>

definition enrich :: "ctx \<Rightarrow> event \<Rightarrow> sys \<Rightarrow> event \<times> sys" where
  "enrich cx event st =
     (case getToken (new_uuid cx) st of
        (tok, st1) \<Rightarrow>
          (let event1 = event\<lparr>token := tok\<rparr>
           in (if router_data event1 = None \<or> router_data event1 = Some []
               then event1\<lparr>router_data := Some (router_descriptor (router st1))\<rparr>
               else event1, st1)))"

definition handler_truthy :: "event \<Rightarrow> bool" where
  "handler_truthy event = truthy_str (handler event)"

text \<open>
  \<open>processEvent\<close>, \<open>applyEvent\<close> and \<open>queueEvents\<close> call one another. \<open>processEvent\<close> may
  drain for ever (a storage special event re-enqueues the initial events, which may
  hold such an event again), so it takes fuel: one unit per event taken off the queue,
  \<open>None\<close> when it runs out. Its guards need none.

  In \<open>applyEvent\<close>: only an element has a \<open>focus\<close> function; the assignment to
  \<open>ref.current.value\<close> succeeds on any object (it is seen only on an element) and throws
  on a primitive value, the module being strict code. In the \<open>_call_script\<close> branch the
  script and the callback are external code, logged as effects; when the script's result
  is a promise and there is a callback, the call stands at \<open>await eval_result\<close>. An
  exception of the script or the callback is caught there and logged, and the branch
  returns \<open>false\<close> all the same.

  \<open>processEvent\<close> stands at its own \<open>await\<close> after every dispatch. When the dispatch is
  suspended in the script branch, or sent nothing and is overtaken, the call goes to
  \<open>suspended\<close> and is taken up by \<open>resume\<close>; after a dispatch that sent the event or threw
  nothing is left to do, and after one that sent nothing and is not overtaken the call
  goes on at once.
\<close>

fun processEvent :: "ctx \<Rightarrow> nat \<Rightarrow> socket option \<Rightarrow> sys \<Rightarrow> (unit completion \<times> sys) option"
and applyEvent :: "ctx \<Rightarrow> nat \<Rightarrow> event \<Rightarrow> socket option \<Rightarrow> sys \<Rightarrow> (bool completion \<times> sys) option"
and queueEvents :: "ctx \<Rightarrow> nat \<Rightarrow> event list \<Rightarrow> sockarg \<Rightarrow> sys \<Rightarrow> (unit completion \<times> sys) option"
where
  "processEvent cx fuel None st = Some (Returned (), st)"
| "processEvent cx 0 (Some s) st =
     (if event_queue st = [] \<or> event_processing st then Some (Returned (), st) else None)"
| "processEvent cx (Suc n) (Some s) st =
     (if event_queue st = [] \<or> event_processing st then Some (Returned (), st)
      else (case event_queue st of
              [] \<Rightarrow> Some (Returned (), st)
            | event # rest \<Rightarrow>
                (case (if handler_truthy event
                       then Some (applyRestEvent cx event (Some s)
                                    (st\<lparr>event_processing := True, event_queue := rest,
                                        dequeued := dequeued st @ [event]\<rparr>))
                       else applyEvent cx n event (Some s)
                              (st\<lparr>event_processing := True, event_queue := rest,
                                  dequeued := dequeued st @ [event]\<rparr>)) of
                   None \<Rightarrow> None
                 | Some (Threw, st3) \<Rightarrow> Some (Threw, st3)
                 | Some (Suspended, st3) \<Rightarrow>
                     Some (Suspended,
                           st3\<lparr>suspended := suspended st3 @
                                  [AfterScript s (get_prop (payload event) ''callback'')]\<rparr>)
                 | Some (Returned eventSent, st3) \<Rightarrow>
                     if \<not> eventSent
                     then (if overtaken cx (length (dequeued st))
                           then Some (Suspended,
                                      st3\<lparr>suspended := suspended st3 @ [AfterDispatch s]\<rparr>)
                           else processEvent cx n (Some s) (st3\<lparr>event_processing := False\<rparr>))
                     else Some (Returned (), st3))))"
| "applyEvent cx n event sock st =
     (if name event = ''_redirect'' then
        (if truthy (get_prop (payload event) ''external'')
         then (if window st = None then Some (Threw, st)
               else Some (Returned False, log (WindowOpen (get_prop (payload event) ''path'')) st))
         else Some (Returned False, log (RouterPush (get_prop (payload event) ''path'')) st))
      else if name event = ''_console'' then
        Some (Returned False, log (ConsoleLog [get_prop (payload event) ''message'']) st)
      else if name event = ''_remove_cookie'' then
        (case queueEvents cx n (initialEvents cx) (SocketObj sock)
                (log (CookiesRemove (get_prop (payload event) ''key'')
                        (spread_options (get_prop (payload event) ''options''))) st) of
           None \<Rightarrow> None
         | Some (c, st1) \<Rightarrow> Some (Returned False, st1))
      else if name event = ''_clear_local_storage'' then
        (if window st = None then Some (Threw, st)
         else (case queueEvents cx n (initialEvents cx) (SocketObj sock)
                      (log LocalStorageClear st) of
                 None \<Rightarrow> None
               | Some (c, st1) \<Rightarrow> Some (Returned False, st1)))
      else if name event = ''_remove_local_storage'' then
        (if window st = None then Some (Threw, st)
         else (case queueEvents cx n (initialEvents cx) (SocketObj sock)
                      (log (LocalStorageRemoveItem (get_prop (payload event) ''key'')) st) of
                 None \<Rightarrow> None
               | Some (c, st1) \<Rightarrow> Some (Returned False, st1)))
      else if name event = ''_set_clipboard'' then
        (if window st = None then Some (Threw, st)
         else Some (Returned False,
                    log (ClipboardWriteText (get_prop (payload event) ''content'')) st))
      else if name event = ''_download'' then
        (if window st = None then Some (Threw, st)
         else Some (Returned False,
                    log (Download (get_prop (payload event) ''url'')
                           (get_prop (payload event) ''filename'')) st))
      else if name event = ''_alert'' then
        (if window st = None then Some (Threw, st)
         else Some (Returned False, log (Alert (get_prop (payload event) ''message'')) st))
      else if name event = ''_set_focus'' then
        (case ref_current cx (get_prop (payload event) ''ref'') of
           Returned (JElement el) \<Rightarrow> Some (Returned False, log (Focus el) st)
         | _ \<Rightarrow> Some (Threw, st))
      else if name event = ''_set_value'' then
        (case ref_current cx (get_prop (payload event) ''ref'') of
           Returned (JElement el) \<Rightarrow>
             Some (Returned False, log (SetValue el (get_prop (payload event) ''value'')) st)
         | Returned (JObj ps) \<Rightarrow> Some (Returned False, st)
         | Returned (JArr xs) \<Rightarrow> Some (Returned False, st)
         | Returned (JFile f) \<Rightarrow> Some (Returned False, st)
         | _ \<Rightarrow> Some (Threw, st))
      else if name event = ''_call_script'' then
        (if truthy (get_prop (payload event) ''callback'')
         then (if thenable cx (get_prop (payload event) ''javascript_code'')
               then Some (Suspended,
                          log (Eval (get_prop (payload event) ''javascript_code'')) st)
               else Some (Returned False,
                          log (Callback (get_prop (payload event) ''callback''))
                            (log (Eval (get_prop (payload event) ''javascript_code'')) st)))
         else Some (Returned False,
                    log (Eval (get_prop (payload event) ''javascript_code'')) st))
      else (case enrich cx event st of
              (event2, st1) \<Rightarrow>
                (case sock of
                   Some s \<Rightarrow>
                     Some (Returned True,
                           (log (SocketEmit event2) st1)\<lparr>awaiting := awaiting st1 @ [event2]\<rparr>)
                 | None \<Rightarrow> Some (Returned False, st1))))"
| "queueEvents cx n evs sa st =
     (case current sa (st\<lparr>event_queue := event_queue st @ evs, enqueued := enqueued st @ evs\<rparr>) of
        Returned s \<Rightarrow>
          processEvent cx n s
            (st\<lparr>event_queue := event_queue st @ evs, enqueued := enqueued st @ evs\<rparr>)
      | _ \<Rightarrow>
          Some (Threw, st\<lparr>event_queue := event_queue st @ evs, enqueued := enqueued st @ evs\<rparr>))"

text \<open>
  A suspended call of \<open>processEvent\<close> resumes (the \<open>i\<close>-th of those suspended): the
  awaited promise has settled, \<open>applyEvent\<close> calls the callback of the script if that is
  where it stood, and returns \<open>false\<close>; \<open>processEvent\<close> goes on with
  \<open>event_processing = false\<close> and its recursive call (lines 293 to 297).
\<close>

definition resume :: "ctx \<Rightarrow> nat \<Rightarrow> nat \<Rightarrow> sys \<Rightarrow> (unit completion \<times> sys) option" where
  "resume cx fuel i st =
     (if i < length (suspended st)
      then (case suspended st ! i of
              AfterScript s callback \<Rightarrow>
                processEvent cx fuel (Some s)
                  ((log (Callback callback)
                      (st\<lparr>suspended := take i (suspended st) @ drop (Suc i) (suspended st)\<rparr>))
                     \<lparr>event_processing := False\<rparr>)
            | AfterDispatch s \<Rightarrow>
                processEvent cx fuel (Some s)
                  (st\<lparr>suspended := take i (suspended st) @ drop (Suc i) (suspended st),
                      event_processing := False\<rparr>))
      else Some (Returned (), st))"

text \<open>
  The handler of \<open>connect\<close> for inbound \<open>"event"\<close> messages, from the decoded update on.
  Without a \<open>delta\<close> the loop over the substates does nothing and
  \<open>applyClientStorageDelta\<close> throws at \<open>Object.keys(delta)\<close>, before the flag is written.
  The \<open>queueEvents\<close> call is not awaited, so a throw inside it stays there.
\<close>

definition on_event :: "ctx \<Rightarrow> nat \<Rightarrow> update \<Rightarrow> sys \<Rightarrow> (unit completion \<times> sys) option" where
  "on_event cx fuel upd st =
     (case delta upd of
        None \<Rightarrow> Some (Threw, st)
      | Some d \<Rightarrow>
          (let st1 = st\<lparr>app_state := dispatch_delta d (app_state st)\<rparr>;
               st2 = st1\<lparr>effects := effects st1 @
                        applyClientStorageDelta (storage_config cx) (window st1 \<noteq> None) d\<rparr>;
               st3 = st2\<lparr>event_processing := \<not> (final upd = Some True),
                         final_mark := (if final upd = Some True then length (effects st2)
                                        else final_mark st2)\<rparr>
           in case events upd of
                None \<Rightarrow> Some (Returned (), st3)
              | Some evs \<Rightarrow>
                  (case queueEvents cx fuel evs SocketRef st3 of
                     None \<Rightarrow> None
                   | Some (c, st4) \<Rightarrow> Some (Returned (), st4))))"

definition on_message :: "ctx \<Rightarrow> nat \<Rightarrow> string \<Rightarrow> sys \<Rightarrow> (unit completion \<times> sys) option" where
  "on_message cx fuel message st =
     (case json5_parse cx message of
        None \<Rightarrow> Some (Threw, st)
      | Some upd \<Rightarrow> on_event cx fuel upd st)"

text \<open>\<open>connect\<close> stores the new connection in the ref.\<close>

definition connect :: "socket \<Rightarrow> sys \<Rightarrow> sys" where
  "connect s st = st\<lparr>socket_current := Some s\<rparr>"

text \<open>
  Modelled from the spec: the backend is not part of the sources. Per the spec (2,
  Update, and the glossary, Final flag) an update with \<open>final = true\<close> is the last
  update of one dispatched event's processing cycle. The events are taken to be answered
  in the order in which they were emitted: a message on the socket belongs to the event
  emitted first among those that still await their last update. Only the history
  variable \<open>awaiting\<close> depends on this.
\<close>

definition answered :: "update \<Rightarrow> sys \<Rightarrow> sys" where
  "answered upd st = (if final upd = Some True then st\<lparr>awaiting := tl (awaiting st)\<rparr> else st)"

text \<open>
  The entry points through which the engine is driven: \<open>connect\<close>, \<open>addEvents\<close> of
  \<open>useEventLoop\<close> (\<open>queueEvents\<close> on the ref), one turn of the drain loop of the main
  effect, a decoded update handled by the listener of \<open>connect\<close>, either a message on the
  socket or a line of an upload response that \<open>eventHandler\<close> passes to the same
  listener, the settling of an upload request, a route change, and the resumption of a
  suspended call.

  Between two entry points no code of the engine runs. A drain that goes on for ever
  keeps the microtask queue busy, so that no other entry point runs after it; \<open>run\<close> is
  then \<open>None\<close>.
\<close>

datatype action =
    Connect socket
  | AddEvents "event list"
  | Drain
  | Message update
  | UploadLine update
  | UploadSettled string axios_outcome
  | RouteChanged "jsval obj"
  | Resume nat

fun step :: "ctx \<Rightarrow> nat \<Rightarrow> action \<Rightarrow> sys \<Rightarrow> sys option" where
  "step cx fuel (Connect s) st = Some (connect s st)"
| "step cx fuel (AddEvents evs) st = map_option snd (queueEvents cx fuel evs SocketRef st)"
| "step cx fuel Drain st = map_option snd (processEvent cx fuel (socket_current st) st)"
| "step cx fuel (Message upd) st = map_option snd (on_event cx fuel upd (answered upd st))"
| "step cx fuel (UploadLine upd) st = map_option snd (on_event cx fuel upd st)"
| "step cx fuel (UploadSettled upload_id outcome) st = Some (snd (uploadFiles_settle upload_id outcome st))"
| "step cx fuel (RouteChanged r) st = Some (st\<lparr>router := r\<rparr>)"
| "step cx fuel (Resume i) st = map_option snd (resume cx fuel i st)"

fun run :: "ctx \<Rightarrow> nat \<Rightarrow> action list \<Rightarrow> sys \<Rightarrow> sys option" where
  "run cx fuel [] st = Some st"
| "run cx fuel (a # as) st =
     (case step cx fuel a st of None \<Rightarrow> None | Some st1 \<Rightarrow> run cx fuel as st1)"

text \<open>
  A run is \<open>calm\<close> when no update with \<open>final = true\<close> is handled while a call of
  \<open>processEvent\<close> is suspended, and \<open>socket_only\<close> when no line of an upload response is
  handled in it.
\<close>

fun final_update_action :: "action \<Rightarrow> bool" where
  "final_update_action (Message upd) = (final upd = Some True)"
| "final_update_action (UploadLine upd) = (final upd = Some True)"
| "final_update_action a = False"

fun calm :: "ctx \<Rightarrow> nat \<Rightarrow> action list \<Rightarrow> sys \<Rightarrow> bool" where
  "calm cx fuel [] st = True"
| "calm cx fuel (a # as) st =
     ((final_update_action a \<longrightarrow> suspended st = [])
      \<and> (case step cx fuel a st of None \<Rightarrow> True | Some st1 \<Rightarrow> calm cx fuel as st1))"



text \<open>The state when the module is loaded, for a given browser, router and reducer state.\<close>

definition initial_sys :: "browser option \<Rightarrow> jsval obj \<Rightarrow> fields obj \<Rightarrow> sys" where
  "initial_sys w r a =
     \<lparr>token_var = None, window = w, event_processing = False, event_queue = [],
      upload_controllers = [], socket_current = None, app_state = a, router = r,
      effects = [], enqueued = [], dequeued = [], awaiting = [], final_mark = 0,
      suspended = []\<rparr>"

section \<open>Streaming upload responses\<close>










section \<open>Connection errors\<close>

text \<open>
  The \<open>"connect"\<close> and \<open>"connect_error"\<close> listeners that \<open>connect\<close> registers. Their
  \<open>connectErrors\<close> is the parameter of \<open>connect\<close>: the value the React state had in the
  render that called \<open>connect\<close>. \<open>setConnectErrors\<close> replaces the state, which is the last
  argument here.
\<close>

datatype lifecycle = OnConnect | OnConnectError jsval

fun connect_listener :: "jsval list \<Rightarrow> lifecycle \<Rightarrow> jsval list \<Rightarrow> jsval list" where
  "connect_listener connectErrors OnConnect cur = []"
| "connect_listener connectErrors (OnConnectError error) cur = connectErrors @ [error]"

text \<open>
  \<open>useEventLoop\<close> starts the state at \<open>[]\<close> and calls \<open>connect\<close> once, while the ref is
  still empty; nothing has changed the state before that, so the listeners hold \<open>[]\<close>.
\<close>

definition useEventLoop_connectErrors :: "lifecycle list \<Rightarrow> jsval list" where
  "useEventLoop_connectErrors evs = fold (connect_listener []) evs []"

text \<open>
  What the specification describes: \<open>onConnectError\<close> appends to the list as it is now,
  \<open>onConnect\<close> clears it.
\<close>

fun spec_connect_listener :: "lifecycle \<Rightarrow> jsval list \<Rightarrow> jsval list" where
  "spec_connect_listener OnConnect cur = []"
| "spec_connect_listener (OnConnectError error) cur = cur @ [error]"

definition spec_connectErrors :: "lifecycle list \<Rightarrow> jsval list" where
  "spec_connectErrors evs = fold spec_connect_listener evs []"

section \<open>A small application\<close>

text \<open>
  A context and a starting state on which the theorems below are run: one initial
  (hydrate) event, two cookie-backed and two local-storage-backed state keys (\<open>app.x\<close> is
  configured in both), one mounted ref, scripts that return no promise, no dispatch
  overtaken, and a browser whose session storage already holds a token.

  Its decoder gives what \<open>JSON5.parse\<close> gives on the strings that the examples pass to
  it: four lines, which are JSON objects, two of them updates and two with none of the
  properties of an update, and strings that are no JSON5 text (the proper prefixes of
  those lines, the empty string), on which it throws.
\<close>

definition line_a :: string where
  \<open>line_a = ''{"a":1}''\<close>

definition line_b :: string where
  \<open>line_b = ''{"b":2}''\<close>

definition line_one :: string where
  \<open>line_one = ''{"delta":{"counter":{"value":1}},"final":false}''\<close>

definition line_two :: string where
  \<open>line_two = ''{"delta":{"counter":{"value":2}},"final":true}''\<close>

definition decode_example :: "string \<Rightarrow> update option" where
  "decode_example s =
     (if s = line_one
      then Some \<lparr>delta = Some [(''counter'', [(''value'', JNum 1)])], events = None,
                  final = Some False\<rparr>
      else if s = line_two
      then Some \<lparr>delta = Some [(''counter'', [(''value'', JNum 2)])], events = None,
                  final = Some True\<rparr>
      else if s = line_a \<or> s = line_b
      then Some \<lparr>delta = None, events = None, final = None\<rparr>
      else None)"

definition hydrate_event :: event where
  "hydrate_event =
     \<lparr>name = ''state.hydrate'', payload = [], handler = None, token = None, router_data = None\<rparr>"

definition cs_example :: client_storage where
  "cs_example =
     \<lparr>cookies = Some [(''app.c'', \<lparr>opt_name = Some ''ck'', opt_sync = None,
                                   opt_rest = [(''path'', JStr ''/'')]\<rparr>),
                      (''app.x'', \<lparr>opt_name = None, opt_sync = None, opt_rest = []\<rparr>)],
      local_storage = Some [(''app.l'', \<lparr>opt_name = None, opt_sync = Some True, opt_rest = []\<rparr>),
                            (''app.lang'', \<lparr>opt_name = Some ''lang'', opt_sync = None, opt_rest = []\<rparr>),
                            (''app.x'', \<lparr>opt_name = None, opt_sync = None, opt_rest = []\<rparr>)]\<rparr>"

definition cx_example :: ctx where
  "cx_example =
     \<lparr>initialEvents = [hydrate_event],
      storage_config = cs_example,
      refs = [(''ref_input'', True)],
      new_uuid = ''0f0e0d0c-0b0a-4908-8706-050403020100'',
      json5_parse = decode_example,
      thenable = (\<lambda>code. False),
      overtaken = (\<lambda>k. False)\<rparr>"

definition sys_example :: sys where
  "sys_example =
     initial_sys (Some \<lparr>sessionStorage = [(''token'', ''session'')]\<rparr>) [(''pathname'', JStr ''/'')] []"

text \<open>\<open>Event(name, payload, handler)\<close>, and an event that already carries a token and
  router data.\<close>

definition Event :: "string \<Rightarrow> jsval obj \<Rightarrow> string option \<Rightarrow> event" where
  "Event n p h = \<lparr>name = n, payload = p, handler = h, token = None, router_data = None\<rparr>"

definition tokened_event :: event where
  "tokened_event =
     \<lparr>name = ''state.set_count'', payload = [(''value'', JNum 5)], handler = None,
      token = Some ''other'', router_data = Some [(''pathname'', JStr ''/old'')]\<rparr>"

section \<open>Invariants and scenarios\<close>

text \<open>
  The single-flight invariant and the queue invariant, and what a dispatch that sends
  nothing may change: it logs effects and may push events, nothing else of the queue
  and the gate.
\<close>

definition gate_inv :: "sys \<Rightarrow> bool" where
  "gate_inv st =
     (final_mark st \<le> length (effects st)
      \<and> length (since_final st) \<le> 1 \<and> (since_final st \<noteq> [] \<longrightarrow> event_processing st)
      \<and> length (suspended st) \<le> 1
      \<and> (suspended st \<noteq> [] \<longrightarrow> event_processing st \<and> since_final st = []))"

definition fifo_inv :: "sys \<Rightarrow> bool" where
  "fifo_inv st = (enqueued st = dequeued st @ event_queue st)"

definition local_frame :: "sys \<Rightarrow> sys \<Rightarrow> bool" where
  "local_frame st st' =
     (event_processing st' = event_processing st \<and> dequeued st' = dequeued st
      \<and> socket_current st' = socket_current st \<and> awaiting st' = awaiting st
      \<and> final_mark st' = final_mark st \<and> suspended st' = suspended st
      \<and> (\<exists>es. effects st' = effects st @ es \<and> emitted es = [])
      \<and> (\<exists>evs. event_queue st' = event_queue st @ evs \<and> enqueued st' = enqueued st @ evs))"

text \<open>What a dispatch that sent the event \<open>e'\<close> has changed.\<close>

definition sent_frame :: "sys \<Rightarrow> event \<Rightarrow> sys \<Rightarrow> bool" where
  "sent_frame st e' st' =
     (awaiting st' = awaiting st @ [e'] \<and> effects st' = effects st @ [SocketEmit e']
      \<and> final_mark st' = final_mark st \<and> suspended st' = suspended st
      \<and> event_processing st' = event_processing st
      \<and> dequeued st' = dequeued st \<and> socket_current st' = socket_current st
      \<and> event_queue st' = event_queue st \<and> enqueued st' = enqueued st)"

text \<open>During a dispatch: nothing emitted since the last final update, nothing suspended.\<close>

definition dispatching :: "sys \<Rightarrow> bool" where
  "dispatching st =
     (final_mark st \<le> length (effects st) \<and> since_final st = [] \<and> suspended st = []
      \<and> event_processing st)"

text \<open>
  As long as no line of an upload response is handled, the events that await their
  reply are among those emitted since the last final update.
\<close>

definition await_inv :: "sys \<Rightarrow> bool" where
  "await_inv st = (gate_inv st \<and> suffix (awaiting st) (since_final st))"

text \<open>The state in which the listener has written the flag.\<close>

definition flagged :: "ctx \<Rightarrow> update \<Rightarrow> delta \<Rightarrow> sys \<Rightarrow> sys" where
  "flagged cx upd d st =
     st\<lparr>app_state := dispatch_delta d (app_state st),
        effects := effects st @ applyClientStorageDelta (storage_config cx) (window st \<noteq> None) d,
        event_processing := \<not> (final upd = Some True),
        final_mark := (if final upd = Some True
                       then length (effects st @
                              applyClientStorageDelta (storage_config cx) (window st \<noteq> None) d)
                       else final_mark st)\<rparr>"

text \<open>The state in which a suspended call goes on.\<close>

definition resumed :: "nat \<Rightarrow> sys \<Rightarrow> sys" where
  "resumed i st =
     (case suspended st ! i of
        AfterScript s callback \<Rightarrow>
          (log (Callback callback)
             (st\<lparr>suspended := take i (suspended st) @ drop (Suc i) (suspended st)\<rparr>))
            \<lparr>event_processing := False\<rparr>
      | AfterDispatch s \<Rightarrow>
          st\<lparr>suspended := take i (suspended st) @ drop (Suc i) (suspended st),
             event_processing := False\<rparr>)"

definition resumed_socket :: "continuation \<Rightarrow> socket" where
  "resumed_socket k = (case k of AfterScript s callback \<Rightarrow> s | AfterDispatch s \<Rightarrow> s)"

text \<open>What the scenarios below look at in a state.\<close>

definition observe ::
  "sys \<Rightarrow> string list \<times> string list \<times> bool \<times> string list \<times> string list \<times> string list \<times> nat" where
  "observe st = (map name (since_final st), map name (awaiting st), event_processing st,
                 map name (event_queue st), map name (dequeued st), map name (enqueued st),
                 length (suspended st))"

definition console_event :: event where
  "console_event = Event ''_console'' [(''message'', JStr ''hi'')] None"

definition nonfinal_update :: update where
  "nonfinal_update =
     \<lparr>delta = Some [(''counter'', [(''value'', JNum 5)])], events = Some [], final = Some False\<rparr>"

definition final_update :: update where
  "final_update =
     \<lparr>delta = Some [(''counter'', [(''value'', JNum 5)])], events = Some [], final = Some True\<rparr>"

definition scenario :: "action list" where
  "scenario = [Connect (Socket 0),
               AddEvents [console_event, Event ''state.a'' [] None, Event ''state.b'' [] None],
               Message nonfinal_update]"



text \<open>
  A script that returns a promise, with a callback: an update with \<open>final = true\<close> is
  handled while the promise is pending, and the call resumes afterwards. In the second
  scenario a local event is overtaken by the next update in the same way. The contexts
  are the one above, with scripts that return a promise, and with the first dispatch
  overtaken.
\<close>

definition cx_script :: ctx where
  "cx_script = cx_example\<lparr>thenable := (\<lambda>code. True)\<rparr>"

definition cx_overtaken :: ctx where
  "cx_overtaken = cx_example\<lparr>overtaken := (\<lambda>k. k = 0)\<rparr>"

definition script_event :: event where
  "script_event =
     Event ''_call_script'' [(''javascript_code'', JStr ''load()''), (''callback'', JStr ''done'')]
       None"

definition script_scenario :: "action list" where
  "script_scenario =
     [Connect (Socket 0),
      AddEvents [script_event, Event ''state.a'' [] None, Event ''state.b'' [] None],
      Message final_update,
      Resume 0]"

definition overtaken_scenario :: "action list" where
  "overtaken_scenario =
     [Connect (Socket 0),
      AddEvents [console_event, Event ''state.a'' [] None, Event ''state.b'' [] None],
      UploadLine final_update,
      Resume 0]"

text \<open>The same script with nothing in between: it is suspended, and resumes.\<close>

definition script_alone :: "action list" where
  "script_alone =
     [Connect (Socket 0),
      AddEvents [script_event, Event ''state.a'' [] None, Event ''state.b'' [] None],
      Resume 0]"



definition trimR :: "string \<Rightarrow> string" where
  "trimR s = rev (dropWhile is_ws (rev s))"





section \<open>Lemmas on objects\<close>

lemma map_of_set_prop: "map_of (set_prop k v ob) = (map_of ob)(k \<mapsto> v)"
  by (induction ob) (auto simp: fun_eq_iff)

lemma keys_set_prop: "fst ` set (set_prop k v ob) = insert k (fst ` set ob)"
proof -
  have "fst ` set (set_prop k v ob) = dom (map_of (set_prop k v ob))"
    by (simp add: dom_map_of_conv_image_fst)
  also have "\<dots> = insert k (dom (map_of ob))"
    by (simp add: map_of_set_prop)
  finally show ?thesis by (simp add: dom_map_of_conv_image_fst)
qed

lemma distinct_set_prop:
  "distinct (map fst ob) \<Longrightarrow> distinct (map fst (set_prop k v ob))"
proof (induction ob)
  case Nil
  show ?case by simp
next
  case (Cons p ps)
  obtain k' v' where p: "p = (k', v')" by (cases p)
  from Cons have d: "distinct (map fst (set_prop k v ps))" and n: "k' \<notin> fst ` set ps"
    by (auto simp: p)
  show ?case
  proof (cases "k = k'")
    case True
    with Cons.prems show ?thesis by (simp add: p)
  next
    case False
    with n have "k' \<notin> fst ` set (set_prop k v ps)" by (simp add: keys_set_prop)
    with d False show ?thesis by (simp add: p)
  qed
qed

lemma map_of_spread_into:
  "distinct (map fst src) \<Longrightarrow> map_of (spread_into target src) = map_of target ++ map_of src"
proof (induction src arbitrary: target)
  case Nil
  show ?case by (simp add: spread_into_def)
next
  case (Cons p ps)
  obtain k v where p: "p = (k, v)" by (cases p)
  from Cons.prems have d: "distinct (map fst ps)" and n: "map_of ps k = None"
    by (auto simp: p map_of_eq_None_iff)
  have step: "spread_into target (p # ps) = spread_into (set_prop k v target) ps"
    by (simp add: spread_into_def p)
  have "map_of (spread_into target (p # ps)) = (map_of target)(k \<mapsto> v) ++ map_of ps"
    unfolding step Cons.IH [OF d] map_of_set_prop ..
  also have "\<dots> = map_of target ++ map_of (p # ps)"
    using n by (auto simp: p fun_eq_iff map_add_def split: option.splits)
  finally show ?case .
qed

lemma distinct_spread_into:
  "distinct (map fst target) \<Longrightarrow> distinct (map fst (spread_into target src))"
  unfolding spread_into_def
  by (induction src arbitrary: target) (simp_all add: distinct_set_prop)

lemma map_of_applyDelta:
  assumes "distinct (map fst state)" and "distinct (map fst d)"
  shows "map_of (applyDelta state d) = map_of state ++ map_of d"
proof -
  have "map_of (spread_into [] state) = map_of state"
    using assms(1) by (simp add: map_of_spread_into)
  then show ?thesis
    using assms(2) by (simp add: applyDelta_def spread2_def map_of_spread_into)
qed

lemma distinct_applyDelta: "distinct (map fst (applyDelta state d))"
  by (simp add: applyDelta_def spread2_def distinct_spread_into)

lemma applyDelta_twice:
  assumes "distinct (map fst state)" and "distinct (map fst d)"
  shows "map_of (applyDelta (applyDelta state d) d) = map_of (applyDelta state d)"
proof -
  have "map_of (applyDelta (applyDelta state d) d) = map_of (applyDelta state d) ++ map_of d"
    using distinct_applyDelta assms(2) by (rule map_of_applyDelta)
  also have "\<dots> = (map_of state ++ map_of d) ++ map_of d"
    by (simp add: map_of_applyDelta [OF assms])
  also have "\<dots> = map_of state ++ map_of d"
    by (rule ext) (simp add: map_add_def split: option.splits)
  finally show ?thesis by (simp add: map_of_applyDelta [OF assms])
qed

section \<open>Delta merge\<close>

text \<open>
  C3. For objects \<open>state\<close> and \<open>d\<close> (one entry per key), \<open>applyDelta state d\<close>
  gives every key of the delta the delta's value and every other key of the state its old
  value, has no further keys, and is an object again; applying the same delta a second
  time changes no field. Run as the reducer of substate
  \<open>a\<close>, it takes the empty snapshot through \<open>{x:1}\<close> and \<open>{y:2}\<close> to \<open>{x:1, y:2}\<close>, and
  applying \<open>{x:1}\<close> once more changes nothing; the same holds when the three deltas
  \<open>{a:{x:1}}\<close>, \<open>{a:{y:2}}\<close>, \<open>{a:{x:1}}\<close> go through the dispatch loop of the inbound
  handler.
\<close>

theorem applyDelta_shallow_merge:
  assumes "distinct (map fst state)" and "distinct (map fst d)"
  shows "(\<forall>k. map_of (applyDelta state d) k =
          (case map_of d k of Some v \<Rightarrow> Some v | None \<Rightarrow> map_of state k))
   \<and> distinct (map fst (applyDelta state d))
   \<and> (\<forall>k. map_of (applyDelta (applyDelta state d) d) k = map_of (applyDelta state d) k)
   \<and> applyDelta (applyDelta [] [(''x'', JNum 1)]) [(''y'', JNum 2)]
       = [(''x'', JNum 1), (''y'', JNum 2)]
   \<and> applyDelta [(''x'', JNum 1), (''y'', JNum 2)] [(''x'', JNum 1)]
       = [(''x'', JNum 1), (''y'', JNum 2)]
   \<and> dispatch_delta [(''a'', [(''y'', JNum 2)])]
       (dispatch_delta [(''a'', [(''x'', JNum 1)])] [])
       = [(''a'', [(''x'', JNum 1), (''y'', JNum 2)])]
   \<and> dispatch_delta [(''a'', [(''x'', JNum 1)])]
       [(''a'', [(''x'', JNum 1), (''y'', JNum 2)])]
       = [(''a'', [(''x'', JNum 1), (''y'', JNum 2)])]"
proof -
  have lookup: "\<forall>k. map_of (applyDelta state d) k =
          (case map_of d k of Some v \<Rightarrow> Some v | None \<Rightarrow> map_of state k)"
    by (simp add: map_of_applyDelta [OF assms] map_add_def split: option.splits)
  have ex1: "applyDelta (applyDelta [] [(''x'', JNum 1)]) [(''y'', JNum 2)]
       = [(''x'', JNum 1), (''y'', JNum 2)]"
    by (simp add: applyDelta_def spread2_def spread_into_def)
  have ex2: "applyDelta [(''x'', JNum 1), (''y'', JNum 2)] [(''x'', JNum 1)]
       = [(''x'', JNum 1), (''y'', JNum 2)]"
    by (simp add: applyDelta_def spread2_def spread_into_def)
  have ex3: "dispatch_delta [(''a'', [(''y'', JNum 2)])]
       (dispatch_delta [(''a'', [(''x'', JNum 1)])] [])
       = [(''a'', [(''x'', JNum 1), (''y'', JNum 2)])]"
    by (simp add: dispatch_delta_def dispatch_def applyDelta_def spread2_def spread_into_def)
  have ex4: "dispatch_delta [(''a'', [(''x'', JNum 1)])]
       [(''a'', [(''x'', JNum 1), (''y'', JNum 2)])]
       = [(''a'', [(''x'', JNum 1), (''y'', JNum 2)])]"
    by (simp add: dispatch_delta_def dispatch_def applyDelta_def spread2_def spread_into_def)
  have idem: "\<forall>k. map_of (applyDelta (applyDelta state d) d) k = map_of (applyDelta state d) k"
    by (simp add: applyDelta_twice [OF assms])
  from lookup distinct_applyDelta idem ex1 ex2 ex3 ex4 show ?thesis by blast
qed

theorem applyDelta_shallow_merge_witness:
  "distinct (map fst [(''x'', JNum 1), (''y'', JNum 2)])
   \<and> distinct (map fst [(''y'', JNum 3), (''z'', JNum 4)])
   \<and> map_of (applyDelta [(''x'', JNum 1), (''y'', JNum 2)] [(''y'', JNum 3), (''z'', JNum 4)]) ''x''
       = Some (JNum 1)
   \<and> map_of (applyDelta [(''x'', JNum 1), (''y'', JNum 2)] [(''y'', JNum 3), (''z'', JNum 4)]) ''y''
       = Some (JNum 3)"
proof -
  have d1: "distinct (map fst [(''x'', JNum 1), (''y'', JNum 2)])" by simp
  have d2: "distinct (map fst [(''y'', JNum 3), (''z'', JNum 4)])" by simp
  from applyDelta_shallow_merge [OF d1 d2]
  have "\<forall>k. map_of (applyDelta [(''x'', JNum 1), (''y'', JNum 2)] [(''y'', JNum 3), (''z'', JNum 4)]) k =
          (case map_of [(''y'', JNum 3), (''z'', JNum 4)] k of Some v \<Rightarrow> Some v
           | None \<Rightarrow> map_of [(''x'', JNum 1), (''y'', JNum 2)] k)"
    by blast
  then have "map_of (applyDelta [(''x'', JNum 1), (''y'', JNum 2)] [(''y'', JNum 3), (''z'', JNum 4)]) ''x''
       = Some (JNum 1)"
    and "map_of (applyDelta [(''x'', JNum 1), (''y'', JNum 2)] [(''y'', JNum 3), (''z'', JNum 4)]) ''y''
       = Some (JNum 3)"
    by simp_all
  with d1 d2 show ?thesis by blast
qed

section \<open>Session token\<close>

text \<open>
  C10. With no cached token, \<open>getToken\<close> outside a browser (no \<open>window\<close>) returns the
  absent token and changes nothing: no identifier is generated, cached or stored. With a
  window it returns an identifier (the one session storage holds, or else the fresh one),
  caches it in the variable and leaves it in session storage.
\<close>

theorem getToken_without_window:
  assumes "token_var st = None"
  shows "(window st = None \<longrightarrow> getToken uuid st = (None, st))
       \<and> (\<forall>w. window st = Some w \<and> uuid \<noteq> [] \<longrightarrow>
             (\<exists>t w'. t \<noteq> [] \<and> getToken uuid st = (Some t, st\<lparr>token_var := Some t, window := Some w'\<rparr>)
                \<and> map_of (sessionStorage w') TOKEN_KEY = Some t))"
proof (intro conjI allI impI)
  assume "window st = None"
  with assms show "getToken uuid st = (None, st)"
    by (simp add: getToken_def truthy_str_def Let_def)
next
  fix w
  assume a: "window st = Some w \<and> uuid \<noteq> []"
  show "\<exists>t w'. t \<noteq> [] \<and> getToken uuid st = (Some t, st\<lparr>token_var := Some t, window := Some w'\<rparr>)
                \<and> map_of (sessionStorage w') TOKEN_KEY = Some t"
  proof (cases "truthy_str (map_of (sessionStorage w) TOKEN_KEY)")
    case True
    then obtain t where t: "map_of (sessionStorage w) TOKEN_KEY = Some t" "t \<noteq> []"
      by (auto simp: truthy_str_def split: option.splits)
    with assms a True have "getToken uuid st = (Some t, st\<lparr>token_var := Some t, window := Some w\<rparr>)"
      by (simp add: getToken_def truthy_str_def Let_def)
    with t show ?thesis by blast
  next
    case False
    let ?w = "w\<lparr>sessionStorage := set_prop TOKEN_KEY uuid (sessionStorage w)\<rparr>"
    have m: "map_of (sessionStorage ?w) TOKEN_KEY = Some uuid"
      by (simp add: map_of_set_prop)
    with assms a False have "getToken uuid st = (Some uuid, st\<lparr>token_var := Some uuid, window := Some ?w\<rparr>)"
      by (simp add: getToken_def truthy_str_def Let_def)
    with m a show ?thesis by blast
  qed
qed

text \<open>The module as loaded outside a browser: the first \<open>getToken\<close> returns \<open>undefined\<close>.\<close>

theorem getToken_without_window_witness:
  "token_var (initial_sys None [] []) = None
   \<and> getToken ''0f0e'' (initial_sys None [] []) = (None, initial_sys None [] [])"
  using getToken_without_window [of "initial_sys None [] []" "''0f0e''"]
  by (simp add: initial_sys_def)

section \<open>Connection errors\<close>

text \<open>
  C8. The claim asks that \<open>n\<close> connection errors in a row leave all \<open>n\<close> in the list, in
  order. The listener appends to the list that \<open>connect\<close> was called with, not to the
  current one: whatever happened before, after an error \<open>e\<close> the list is \<open>[e]\<close>. After the
  errors \<open>e1\<close>, \<open>e2\<close> the code holds \<open>[e2]\<close>, where the specification holds \<open>[e1, e2]\<close>.
  The other half of the claim holds: a connect empties the list.
\<close>

theorem connect_error_overwrites:
  "useEventLoop_connectErrors (evs @ [OnConnectError e]) = [e]
   \<and> useEventLoop_connectErrors (evs @ [OnConnect]) = []
   \<and> useEventLoop_connectErrors [OnConnectError (JStr ''e1''), OnConnectError (JStr ''e2'')]
       = [JStr ''e2'']
   \<and> spec_connectErrors [OnConnectError (JStr ''e1''), OnConnectError (JStr ''e2'')]
       = [JStr ''e1'', JStr ''e2'']"
  by (simp add: useEventLoop_connectErrors_def spec_connectErrors_def)

section \<open>Hydration payload\<close>

lemma hydrate_local_pair:
  "hydrate_local ls (k, options) vals =
     (case map_of ls (name_or options k) of
        None \<Rightarrow> vals
      | Some v \<Rightarrow> set_prop k (JStr v) vals)"
  by (simp add: hydrate_local_def)

lemma map_of_fold_hydrate_local:
  "distinct (map fst cfg) \<Longrightarrow>
   map_of (fold (hydrate_local ls) cfg vals) k =
     (case map_of cfg k of
        None \<Rightarrow> map_of vals k
      | Some options \<Rightarrow>
          (case map_of ls (name_or options k) of
             None \<Rightarrow> map_of vals k
           | Some v \<Rightarrow> Some (JStr v)))"
proof (induction cfg arbitrary: vals k)
  case Nil
  show ?case by simp
next
  case (Cons entry cfg)
  obtain k' o' where e: "entry = (k', o')" by (cases entry)
  from Cons.prems have d: "distinct (map fst cfg)" and n: "map_of cfg k' = None"
    by (auto simp: e map_of_eq_None_iff)
  show ?case
  proof (cases "k = k'")
    case True
    with n show ?thesis
      by (simp add: Cons.IH [OF d] e hydrate_local_pair map_of_set_prop split: option.splits)
  next
    case False
    then show ?thesis
      by (simp add: Cons.IH [OF d] e hydrate_local_pair map_of_set_prop split: option.splits)
  qed
qed

lemma hydrate_local_sync:
  "hydrate_local ls (fst entry, (snd entry)\<lparr>opt_sync := x\<rparr>) = hydrate_local ls entry"
  by (rule ext) (simp add: hydrate_local_def name_or_def)

lemma fold_hydrate_local_sync:
  "fold (hydrate_local ls) (map (\<lambda>entry. (fst entry, (snd entry)\<lparr>opt_sync := f (fst entry)\<rparr>)) cfg) vals
     = fold (hydrate_local ls) cfg vals"
  by (induction cfg arbitrary: vals) (simp_all add: hydrate_local_sync)

lemma hydrateClientStorage_with_sync:
  "hydrateClientStorage (with_sync f cs) jar win = hydrateClientStorage cs jar win"
  by (simp add: hydrateClientStorage_def with_sync_def fold_hydrate_local_sync
      split: option.splits)

text \<open>
  C9. In a browser, every configured local-storage key whose external name has a stored
  value is in the payload of \<open>hydrateClientStorage\<close>, with that value, whatever its
  \<open>sync\<close> option says; and replacing the \<open>sync\<close> options of the configuration in any way
  leaves the payload the same.
\<close>

theorem hydrate_local_storage_ignores_sync:
  assumes "local_storage cs = Some cfg"
    and "distinct (map fst cfg)"
    and "(state_key, options) \<in> set cfg"
    and "map_of ls (name_or options state_key) = Some v"
  shows "map_of (hydrateClientStorage cs jar (Some ls)) state_key = Some (JStr v)
       \<and> hydrateClientStorage (with_sync f cs) jar win = hydrateClientStorage cs jar win"
proof -
  from assms(2,3) have m: "map_of cfg state_key = Some options" by simp
  have "map_of (hydrateClientStorage cs jar (Some ls)) state_key = Some (JStr v)"
    using assms(1,4) m
    by (simp add: hydrateClientStorage_def map_of_fold_hydrate_local [OF assms(2)])
  then show ?thesis by (simp add: hydrateClientStorage_with_sync)
qed

text \<open>The entry \<open>app.lang\<close> has no \<open>sync\<close> option and is hydrated from its external name.\<close>

theorem hydrate_local_storage_ignores_sync_witness:
  "map_of (hydrateClientStorage cs_example [] (Some [(''app.l'', ''dark''), (''lang'', ''fr'')])) ''app.lang''
     = Some (JStr ''fr'')
   \<and> hydrateClientStorage (with_sync (\<lambda>k. Some True) cs_example) [] (Some [(''app.l'', ''dark''), (''lang'', ''fr'')])
     = hydrateClientStorage cs_example [] (Some [(''app.l'', ''dark''), (''lang'', ''fr'')])"
  using hydrate_local_storage_ignores_sync
    [of cs_example "[(''app.l'', \<lparr>opt_name = None, opt_sync = Some True, opt_rest = []\<rparr>),
                            (''app.lang'', \<lparr>opt_name = Some ''lang'', opt_sync = None, opt_rest = []\<rparr>),
                            (''app.x'', \<lparr>opt_name = None, opt_sync = None, opt_rest = []\<rparr>)]"
        "''app.lang''" "\<lparr>opt_name = Some ''lang'', opt_sync = None, opt_rest = []\<rparr>"
        "[(''app.l'', ''dark''), (''lang'', ''fr'')]" "''fr''" "[]" "\<lambda>k. Some True"
        "Some [(''app.l'', ''dark''), (''lang'', ''fr'')]"]
  by (simp add: cs_example_def name_or_def)

section \<open>Upload sessions\<close>

lemma has_prop_delete_prop: "has_prop (delete_prop k ob) k' = (k' \<noteq> k \<and> has_prop ob k')"
  by (induction ob) (auto simp: has_prop_def delete_prop_def)

lemma map_of_delete_prop: "map_of (delete_prop k ob) = (map_of ob)(k := None)"
  by (induction ob) (auto simp: delete_prop_def fun_eq_iff)

lemma upload_controllers_log [simp]: "upload_controllers (log e st) = upload_controllers st"
  by (simp add: log_def)

lemma upload_controllers_getToken [simp]:
  "upload_controllers (snd (getToken u st)) = upload_controllers st"
  by (simp add: getToken_def Let_def split: option.splits)

lemma uploadFiles_settle_releases:
  "\<exists>r st'. uploadFiles_settle upload_id outcome st = (Returned r, st')
       \<and> map_of (upload_controllers st') = (map_of (upload_controllers st))(upload_id := None)"
  by (cases outcome) (simp_all add: uploadFiles_settle_def map_of_delete_prop)

text \<open>
  C5. For \<open>files\<close> that is \<open>undefined\<close> or an array of files: when \<open>files\<close> is absent or
  empty, or the table already has a controller for the upload id (the test of the code,
  which also finds the names the table inherits), \<open>uploadFiles\<close> returns
  \<open>false\<close> at once and the table is as before. Otherwise a session is created, and
  however the request settles (fulfilled, or rejected in one of the three ways) the call
  returns without throwing and the table is back to what it was, without the id. The
  release does not depend on what happened in between: settling in any state \<open>st2\<close>
  returns and leaves no controller for the id.
\<close>

theorem uploadFiles_exclusive_and_released:
  assumes "files = JUndefined \<or> (\<exists>fs. files = JArr fs \<and> list_all is_file fs)"
  shows "(if files = JUndefined \<or> files = JArr []
             \<or> controller_found (upload_controllers st) upload_id
          then \<exists>st'. uploadFiles cx hdl files upload_id on_upload_progress outcome st
                       = (Returned ReturnedFalse, st')
                  \<and> upload_controllers st' = upload_controllers st
                  \<and> uploadFiles_begin cx hdl files upload_id on_upload_progress st
                       = (Settled (Returned ReturnedFalse), st')
          else (\<exists>st1. uploadFiles_begin cx hdl files upload_id on_upload_progress st = (Pending, st1)
                  \<and> has_prop (upload_controllers st1) upload_id)
             \<and> (\<exists>r st'. uploadFiles cx hdl files upload_id on_upload_progress outcome st
                          = (Returned r, st')
                  \<and> map_of (upload_controllers st') = map_of (upload_controllers st)))
       \<and> (\<exists>r st'. uploadFiles_settle upload_id outcome st2 = (Returned r, st')
              \<and> \<not> has_prop (upload_controllers st') upload_id)"
proof -
  have settle: "\<exists>r st'. uploadFiles_settle upload_id outcome st2 = (Returned r, st')
              \<and> \<not> has_prop (upload_controllers st') upload_id"
    using uploadFiles_settle_releases [of upload_id outcome st2]
    by (auto simp: has_prop_def)
  show ?thesis
  proof (cases "files = JUndefined \<or> files = JArr []
                  \<or> controller_found (upload_controllers st) upload_id")
    case True
    from assms True
    have "\<exists>st'. uploadFiles_begin cx hdl files upload_id on_upload_progress st
                       = (Settled (Returned ReturnedFalse), st')
                  \<and> upload_controllers st' = upload_controllers st"
      by (auto simp: uploadFiles_begin_def split: bool.splits)
    then show ?thesis using True settle by (auto simp: uploadFiles_def)
  next
    case False
    with assms obtain fs where fs: "files = JArr fs" "fs \<noteq> []" "list_all is_file fs"
      and nf: "\<not> controller_found (upload_controllers st) upload_id"
      by auto
    from nf have free: "\<not> has_prop (upload_controllers st) upload_id"
      by (simp add: controller_found_def)
    obtain tok st0 where g: "getToken (new_uuid cx) st = (tok, st0)"
      by (cases "getToken (new_uuid cx) st")
    then have u0: "upload_controllers st0 = upload_controllers st"
      using upload_controllers_getToken [of "new_uuid cx" st] by simp
    let ?st1 = "log (AxiosPost hdl tok fs)
                  (st0\<lparr>upload_controllers := set_prop upload_id AbortController (upload_controllers st0)\<rparr>)"
    from fs nf g
    have b: "uploadFiles_begin cx hdl files upload_id on_upload_progress st = (Pending, ?st1)"
      by (simp add: uploadFiles_begin_def)
    have h: "has_prop (upload_controllers ?st1) upload_id"
      by (simp add: has_prop_def map_of_set_prop)
    from uploadFiles_settle_releases [of upload_id outcome ?st1]
    obtain r st' where s: "uploadFiles_settle upload_id outcome ?st1 = (Returned r, st')"
      and m: "map_of (upload_controllers st') = (map_of (upload_controllers ?st1))(upload_id := None)"
      by blast
    from free have "map_of (upload_controllers st) upload_id = None"
      by (simp add: has_prop_def)
    with m u0 have "map_of (upload_controllers st') = map_of (upload_controllers st)"
      by (auto simp: map_of_set_prop fun_eq_iff)
    with b h s False settle show ?thesis by (simp add: uploadFiles_def)
  qed
qed

text \<open>A second upload with the id \<open>u1\<close> while the first is pending: \<open>false\<close>, and the first
  session is still there.\<close>

theorem uploadFiles_exclusive_and_released_witness:
  "has_prop (upload_controllers
       (snd (uploadFiles_begin cx_example ''state.upload'' (JArr [JFile ''a.txt'']) ''u1'' JUndefined sys_example))) ''u1''
   \<and> (\<exists>st'. uploadFiles cx_example ''state.upload'' (JArr [JFile ''b.txt'']) ''u1'' JUndefined (Fulfilled JNull)
              (snd (uploadFiles_begin cx_example ''state.upload'' (JArr [JFile ''a.txt'']) ''u1'' JUndefined sys_example))
            = (Returned ReturnedFalse, st')
         \<and> has_prop (upload_controllers st') ''u1'')"
proof -
  let ?st1 = "snd (uploadFiles_begin cx_example ''state.upload'' (JArr [JFile ''a.txt'']) ''u1'' JUndefined sys_example)"
  have h: "has_prop (upload_controllers ?st1) ''u1''"
    by (simp add: uploadFiles_begin_def sys_example_def initial_sys_def has_prop_def getToken_def
        truthy_str_def TOKEN_KEY_def Let_def log_def cx_example_def controller_found_def
        object_prototype_names_def)
  have f: "JArr [JFile ''b.txt''] = JUndefined \<or> (\<exists>fs. JArr [JFile ''b.txt''] = JArr fs \<and> list_all is_file fs)"
    by simp
  from uploadFiles_exclusive_and_released
         [OF f, where st = ?st1 and upload_id = "''u1''" and cx = cx_example
            and hdl = "''state.upload''" and on_upload_progress = JUndefined
            and outcome = "Fulfilled JNull" and ?st2.0 = ?st1] h
  obtain st' where
    "uploadFiles cx_example ''state.upload'' (JArr [JFile ''b.txt'']) ''u1'' JUndefined (Fulfilled JNull) ?st1
       = (Returned ReturnedFalse, st')"
    and "upload_controllers st' = upload_controllers ?st1"
    by (auto simp: controller_found_def)
  with h show ?thesis by simp
qed

section \<open>Storage gating\<close>

lemma split_on_nonempty: "split_on c s \<noteq> []"
  by (induction s) (auto split: list.splits)

lemma length_split_on: "length (split_on c s) = Suc (length (filter (\<lambda>x. x = c) s))"
  by (induction s) (auto split: list.splits simp: split_on_nonempty)

lemma split_on_single: "(length (split_on c s) = Suc 0) = (c \<notin> set s)"
  by (auto simp: length_split_on filter_empty_conv)

lemma unqualified_states_filter:
  "unqualified_states dl = filter (\<lambda>key. CHR ''.'' \<notin> set key) (map fst dl)"
  by (simp add: unqualified_states_def split_on_single)

lemma applyClientStorageDelta_gate:
  assumes "filter (\<lambda>key. CHR ''.'' \<notin> set key) (map fst dl) = [u]"
    and "map_of dl u = Some m"
    and "map_of m ''is_hydrated'' = Some v"
    and "v \<noteq> JUndefined" and "\<not> truthy v"
  shows "applyClientStorageDelta cs w dl = []"
  using assms
  by (simp add: applyClientStorageDelta_def unqualified_states_filter get_prop_def)

text \<open>
  C4, as the code has it. \<open>applyClientStorageDelta\<close> writes nothing when the delta has
  exactly one key without a dot and its value carries an \<open>is_hydrated\<close> that is present
  and falsy. Otherwise, for every field of every substate of the delta: if its state key
  has a cookie entry, the value is written to the cookie store under the configured name
  (or the state key); if it has none but has a local-storage entry, and there is a
  window, the value is written to local storage; and every write made is one of these, so
  a field matching neither entry (or only a local-storage entry without a window) causes
  no write.
\<close>

theorem applyClientStorageDelta_gated_writes:
  "((\<exists>u m v. filter (\<lambda>key. CHR ''.'' \<notin> set key) (map fst dl) = [u] \<and> map_of dl u = Some m
        \<and> map_of m ''is_hydrated'' = Some v \<and> v \<noteq> JUndefined \<and> \<not> truthy v)
      \<longrightarrow> applyClientStorageDelta cs w dl = [])
   \<and> (\<not> (\<exists>u m v. filter (\<lambda>key. CHR ''.'' \<notin> set key) (map fst dl) = [u] \<and> map_of dl u = Some m
        \<and> map_of m ''is_hydrated'' = Some v \<and> v \<noteq> JUndefined \<and> \<not> truthy v)
      \<longrightarrow>
        (\<forall>sub flds key v. (sub, flds) \<in> set dl \<and> (key, v) \<in> set flds \<longrightarrow>
           (case cookie_entry cs (sub @ ''.'' @ key) of
              Some co \<Rightarrow> CookiesSet (name_or co (sub @ ''.'' @ key)) v (opt_rest co)
                           \<in> set (applyClientStorageDelta cs w dl)
            | None \<Rightarrow>
                (case local_entry cs (sub @ ''.'' @ key) of
                   Some lo \<Rightarrow> w \<longrightarrow> LocalStorageSetItem (name_or lo (sub @ ''.'' @ key)) v
                                      \<in> set (applyClientStorageDelta cs w dl)
                 | None \<Rightarrow> True)))
      \<and> (\<forall>e \<in> set (applyClientStorageDelta cs w dl).
            \<exists>sub flds key v. (sub, flds) \<in> set dl \<and> (key, v) \<in> set flds \<and>
              (case cookie_entry cs (sub @ ''.'' @ key) of
                 Some co \<Rightarrow> e = CookiesSet (name_or co (sub @ ''.'' @ key)) v (opt_rest co)
               | None \<Rightarrow>
                   (case local_entry cs (sub @ ''.'' @ key) of
                      Some lo \<Rightarrow> w \<and> e = LocalStorageSetItem (name_or lo (sub @ ''.'' @ key)) v
                    | None \<Rightarrow> False))))"
  (is "(?gate \<longrightarrow> _) \<and> (\<not> ?gate \<longrightarrow> ?all \<and> ?only)")
proof (intro conjI impI)
  assume ?gate
  then show "applyClientStorageDelta cs w dl = []"
    using applyClientStorageDelta_gate by blast
next
  assume ng: "\<not> ?gate"
  have open_eq: "applyClientStorageDelta cs w dl =
      concat (map (\<lambda>sub. concat (map (\<lambda>fld.
              storage_write cs w (fst sub) (fst fld) (snd fld)) (snd sub))) dl)"
  proof (cases "unqualified_states dl")
    case Nil
    then show ?thesis by (simp add: applyClientStorageDelta_def)
  next
    case (Cons u us)
    show ?thesis
    proof (cases us)
      case (Cons u' us')
      with \<open>unqualified_states dl = u # us\<close> show ?thesis
        by (simp add: applyClientStorageDelta_def)
    next
      case Nil
      with \<open>unqualified_states dl = u # us\<close> have f: "unqualified_states dl = [u]" by simp
      then have "u \<in> set (map fst dl)"
        by (metis unqualified_states_filter filter_is_subset list.set_intros(1) subsetD)
      then obtain m where m: "map_of dl u = Some m"
        by (metis map_of_eq_None_iff not_Some_eq set_map)
      from ng f m have "\<not> (\<exists>v. map_of m ''is_hydrated'' = Some v \<and> v \<noteq> JUndefined \<and> \<not> truthy v)"
        by (simp add: unqualified_states_filter)
      then have "\<not> (get_prop m ''is_hydrated'' \<noteq> JUndefined \<and> \<not> truthy (get_prop m ''is_hydrated''))"
        by (auto simp: get_prop_def split: option.splits)
      with f m show ?thesis
        by (cases "get_prop m ''is_hydrated'' = JUndefined")
           (simp_all add: applyClientStorageDelta_def)
    qed
  qed
  show ?all
  proof (intro allI impI)
    fix sub flds key v
    assume a: "(sub, flds) \<in> set dl \<and> (key, v) \<in> set flds"
    then have "set (storage_write cs w sub key v) \<subseteq> set (applyClientStorageDelta cs w dl)"
      unfolding open_eq by force
    then show "case cookie_entry cs (sub @ ''.'' @ key) of
              Some co \<Rightarrow> CookiesSet (name_or co (sub @ ''.'' @ key)) v (opt_rest co)
                           \<in> set (applyClientStorageDelta cs w dl)
            | None \<Rightarrow>
                (case local_entry cs (sub @ ''.'' @ key) of
                   Some lo \<Rightarrow> w \<longrightarrow> LocalStorageSetItem (name_or lo (sub @ ''.'' @ key)) v
                                      \<in> set (applyClientStorageDelta cs w dl)
                 | None \<Rightarrow> True)"
      by (auto simp: storage_write_def Let_def split: option.splits)
  qed
  show ?only
  proof
    fix e
    assume "e \<in> set (applyClientStorageDelta cs w dl)"
    then obtain sub flds key v where p: "(sub, flds) \<in> set dl" "(key, v) \<in> set flds"
      and e: "e \<in> set (storage_write cs w sub key v)"
      unfolding open_eq by auto
    from e have "case cookie_entry cs (sub @ ''.'' @ key) of
                 Some co \<Rightarrow> e = CookiesSet (name_or co (sub @ ''.'' @ key)) v (opt_rest co)
               | None \<Rightarrow>
                   (case local_entry cs (sub @ ''.'' @ key) of
                      Some lo \<Rightarrow> w \<and> e = LocalStorageSetItem (name_or lo (sub @ ''.'' @ key)) v
                    | None \<Rightarrow> False)"
      by (cases "cookie_entry cs (sub @ ''.'' @ key)"; cases "local_entry cs (sub @ ''.'' @ key)")
         (auto simp: storage_write_def Let_def split: if_splits)
    with p show "\<exists>sub flds key v. (sub, flds) \<in> set dl \<and> (key, v) \<in> set flds \<and>
              (case cookie_entry cs (sub @ ''.'' @ key) of
                 Some co \<Rightarrow> e = CookiesSet (name_or co (sub @ ''.'' @ key)) v (opt_rest co)
               | None \<Rightarrow>
                   (case local_entry cs (sub @ ''.'' @ key) of
                      Some lo \<Rightarrow> w \<and> e = LocalStorageSetItem (name_or lo (sub @ ''.'' @ key)) v
                    | None \<Rightarrow> False))"
      by blast
  qed
qed

text \<open>A gated delta, and an open one with a cookie-backed field.\<close>

theorem applyClientStorageDelta_gated_writes_witness:
  "applyClientStorageDelta cs_example True
       [(''app'', [(''is_hydrated'', JBool False), (''c'', JNum 1)])] = []
   \<and> CookiesSet ''ck'' (JNum 1) [(''path'', JStr ''/'')]
        \<in> set (applyClientStorageDelta cs_example True
                  [(''app'', [(''is_hydrated'', JBool True), (''c'', JNum 1), (''z'', JNum 3)])])"
proof -
  have g: "\<exists>u m v. filter (\<lambda>key. CHR ''.'' \<notin> set key)
              (map fst [(''app'', [(''is_hydrated'', JBool False), (''c'', JNum 1)])]) = [u]
        \<and> map_of [(''app'', [(''is_hydrated'', JBool False), (''c'', JNum 1)])] u = Some m
        \<and> map_of m ''is_hydrated'' = Some v \<and> v \<noteq> JUndefined \<and> \<not> truthy v"
    by simp
  have ng: "\<not> (\<exists>u m v. filter (\<lambda>key. CHR ''.'' \<notin> set key)
              (map fst [(''app'', [(''is_hydrated'', JBool True), (''c'', JNum 1), (''z'', JNum 3)])]) = [u]
        \<and> map_of [(''app'', [(''is_hydrated'', JBool True), (''c'', JNum 1), (''z'', JNum 3)])] u = Some m
        \<and> map_of m ''is_hydrated'' = Some v \<and> v \<noteq> JUndefined \<and> \<not> truthy v)"
    by auto
  have c: "cookie_entry cs_example (''app'' @ ''.'' @ ''c'')
             = Some \<lparr>opt_name = Some ''ck'', opt_sync = None, opt_rest = [(''path'', JStr ''/'')]\<rparr>"
    by (simp add: cookie_entry_def cs_example_def)
  from applyClientStorageDelta_gated_writes
         [of "[(''app'', [(''is_hydrated'', JBool False), (''c'', JNum 1)])]" cs_example True] g
  have w1: "applyClientStorageDelta cs_example True
       [(''app'', [(''is_hydrated'', JBool False), (''c'', JNum 1)])] = []"
    by blast
  from applyClientStorageDelta_gated_writes
         [of "[(''app'', [(''is_hydrated'', JBool True), (''c'', JNum 1), (''z'', JNum 3)])]" cs_example True] ng
  have "\<forall>sub flds key v.
          (sub, flds) \<in> set [(''app'', [(''is_hydrated'', JBool True), (''c'', JNum 1), (''z'', JNum 3)])]
          \<and> (key, v) \<in> set flds \<longrightarrow>
           (case cookie_entry cs_example (sub @ ''.'' @ key) of
              Some co \<Rightarrow> CookiesSet (name_or co (sub @ ''.'' @ key)) v (opt_rest co)
                           \<in> set (applyClientStorageDelta cs_example True
                                 [(''app'', [(''is_hydrated'', JBool True), (''c'', JNum 1), (''z'', JNum 3)])])
            | None \<Rightarrow>
                (case local_entry cs_example (sub @ ''.'' @ key) of
                   Some lo \<Rightarrow> True \<longrightarrow> LocalStorageSetItem (name_or lo (sub @ ''.'' @ key)) v
                                      \<in> set (applyClientStorageDelta cs_example True
                                 [(''app'', [(''is_hydrated'', JBool True), (''c'', JNum 1), (''z'', JNum 3)])])
                 | None \<Rightarrow> True))"
    by blast
  from this [rule_format, of "''app''" "[(''is_hydrated'', JBool True), (''c'', JNum 1), (''z'', JNum 3)]"
               "''c''" "JNum 1"] c
  have "CookiesSet ''ck'' (JNum 1) [(''path'', JStr ''/'')]
        \<in> set (applyClientStorageDelta cs_example True
                  [(''app'', [(''is_hydrated'', JBool True), (''c'', JNum 1), (''z'', JNum 3)])])"
    by (simp add: name_or_def)
  with w1 show ?thesis by simp
qed

text \<open>
  The claim as stated has every field with a local-storage entry written to local
  storage. The key \<open>app.x\<close> is configured both as a cookie and in local storage; the code
  tests the cookie first and the local-storage branch is its \<open>else\<close>, so the field goes to
  the cookie store only.
\<close>

theorem storage_local_write_counterexample:
  "applyClientStorageDelta cs_example True [(''app'', [(''x'', JStr ''1'')])]
     = [CookiesSet ''app.x'' (JStr ''1'') []]
   \<and> local_entry cs_example ''app.x'' \<noteq> None
   \<and> LocalStorageSetItem ''app.x'' (JStr ''1'')
        \<notin> set (applyClientStorageDelta cs_example True [(''app'', [(''x'', JStr ''1'')])])"
  by (simp add: applyClientStorageDelta_def unqualified_states_def storage_write_def
      cookie_entry_def local_entry_def cs_example_def name_or_def get_prop_def)

section \<open>Enrichment before dispatch\<close>

lemma getToken_frame:
  "event_queue (snd (getToken u st)) = event_queue st"
  "event_processing (snd (getToken u st)) = event_processing st"
  "router (snd (getToken u st)) = router st"
  "effects (snd (getToken u st)) = effects st"
  "awaiting (snd (getToken u st)) = awaiting st"
  "final_mark (snd (getToken u st)) = final_mark st"
  "suspended (snd (getToken u st)) = suspended st"
  "enqueued (snd (getToken u st)) = enqueued st"
  "dequeued (snd (getToken u st)) = dequeued st"
  "socket_current (snd (getToken u st)) = socket_current st"
  by (simp_all add: getToken_def Let_def split: option.splits)

lemma enrich_eq:
  "enrich cx event st =
     (event\<lparr>token := fst (getToken (new_uuid cx) st),
            router_data := (if router_data event = None \<or> router_data event = Some []
                            then Some (router_descriptor (router st)) else router_data event)\<rparr>,
      snd (getToken (new_uuid cx) st))"
  by (cases "getToken (new_uuid cx) st")
     (use getToken_frame(3) [of "new_uuid cx" st] in \<open>auto simp: enrich_def Let_def\<close>)

lemma applyEvent_network:
  assumes "name event \<notin> set special_names"
  shows "applyEvent cx n event sock st =
           Some (case sock of
                   None \<Rightarrow> (Returned False, snd (enrich cx event st))
                 | Some s \<Rightarrow>
                     (Returned True,
                      (log (SocketEmit (fst (enrich cx event st))) (snd (enrich cx event st)))
                        \<lparr>awaiting := awaiting (snd (enrich cx event st)) @ [fst (enrich cx event st)]\<rparr>))"
proof -
  from assms have ns:
    "name event \<noteq> ''_redirect''" "name event \<noteq> ''_console''"
    "name event \<noteq> ''_remove_cookie''" "name event \<noteq> ''_clear_local_storage''"
    "name event \<noteq> ''_remove_local_storage''" "name event \<noteq> ''_set_clipboard''"
    "name event \<noteq> ''_download''" "name event \<noteq> ''_alert''"
    "name event \<noteq> ''_set_focus''" "name event \<noteq> ''_set_value''"
    "name event \<noteq> ''_call_script''"
    by (simp_all add: special_names_def)
  show ?thesis
    by (cases "enrich cx event st"; cases sock) (simp_all add: ns)
qed

text \<open>
  C7, as the code has it. For an event whose name is none of the special names,
  \<open>applyEvent\<close> emits (when there is a socket) the event with its token set to what
  \<open>getToken()\<close> returns, whether or not it had one, and with its router data set to the
  router descriptor only when they were absent or empty; non-empty router data and every
  other field (name, payload, handler) are as enqueued.
\<close>

theorem applyEvent_enrichment:
  assumes "name event \<notin> set special_names"
  shows "\<exists>event2 st1.
           applyEvent cx n event sock st =
             Some (case sock of
                     None \<Rightarrow> (Returned False, st1)
                   | Some s \<Rightarrow>
                       (Returned True,
                        (log (SocketEmit event2) st1)\<lparr>awaiting := awaiting st1 @ [event2]\<rparr>))
         \<and> event2 = event\<lparr>token := fst (getToken (new_uuid cx) st),
                           router_data := (if router_data event = None \<or> router_data event = Some []
                                           then Some (router_descriptor (router st))
                                           else router_data event)\<rparr>
         \<and> name event2 = name event \<and> payload event2 = payload event
         \<and> handler event2 = handler event"
proof -
  let ?e2 = "event\<lparr>token := fst (getToken (new_uuid cx) st),
                     router_data := (if router_data event = None \<or> router_data event = Some []
                                     then Some (router_descriptor (router st))
                                     else router_data event)\<rparr>"
  let ?st1 = "snd (getToken (new_uuid cx) st)"
  have e: "enrich cx event st = (?e2, ?st1)" by (rule enrich_eq)
  have a: "applyEvent cx n event sock st =
             Some (case sock of
                     None \<Rightarrow> (Returned False, ?st1)
                   | Some s \<Rightarrow>
                       (Returned True,
                        (log (SocketEmit ?e2) ?st1)\<lparr>awaiting := awaiting ?st1 @ [?e2]\<rparr>))"
    using applyEvent_network [OF assms, of cx n sock st] unfolding e fst_conv snd_conv .
  have f: "name ?e2 = name event \<and> payload ?e2 = payload event \<and> handler ?e2 = handler event"
    by simp
  from a f show ?thesis by blast
qed

text \<open>An event that already has router data keeps them.\<close>

theorem applyEvent_enrichment_witness:
  "name tokened_event \<notin> set special_names
   \<and> (\<exists>st1. applyEvent cx_example 0 tokened_event (Some (Socket 0)) sys_example =
         Some (Returned True,
               (log (SocketEmit (tokened_event\<lparr>token := Some ''session''\<rparr>)) st1)
                 \<lparr>awaiting := awaiting st1 @ [tokened_event\<lparr>token := Some ''session''\<rparr>]\<rparr>))"
proof -
  have n: "name tokened_event \<notin> set special_names"
    by (simp add: tokened_event_def special_names_def)
  have t: "fst (getToken (new_uuid cx_example) sys_example) = Some ''session''"
    by (simp add: sys_example_def initial_sys_def cx_example_def
      getToken_def truthy_str_def TOKEN_KEY_def Let_def)
  have r: "router_data tokened_event = Some [(''pathname'', JStr ''/old'')]"
    by (simp add: tokened_event_def)
  have eq: "tokened_event\<lparr>token := Some ''session'',
                 router_data := Some [(''pathname'', JStr ''/old'')]\<rparr>
            = tokened_event\<lparr>token := Some ''session''\<rparr>"
    by (simp add: tokened_event_def)
  from applyEvent_enrichment [OF n, of cx_example 0 "Some (Socket 0)" sys_example]
  obtain st1 where
    "applyEvent cx_example 0 tokened_event (Some (Socket 0)) sys_example =
       Some (Returned True,
             (log (SocketEmit (tokened_event\<lparr>token := Some ''session''\<rparr>)) st1)
               \<lparr>awaiting := awaiting st1 @ [tokened_event\<lparr>token := Some ''session''\<rparr>]\<rparr>)"
    unfolding t r using eq by (auto simp del: applyEvent.simps)
  with n show ?thesis by blast
qed

text \<open>
  The claim as stated leaves a token that is already present unchanged. The event here
  carries the token \<open>other\<close>; it is emitted with the session's token.
\<close>

theorem applyEvent_token_counterexample:
  "applyEvent cx_example 0 tokened_event (Some (Socket 0)) sys_example =
     Some (Returned True,
           (log (SocketEmit (tokened_event\<lparr>token := Some ''session''\<rparr>))
              (sys_example\<lparr>token_var := Some ''session''\<rparr>))
             \<lparr>awaiting := [tokened_event\<lparr>token := Some ''session''\<rparr>]\<rparr>)
   \<and> token tokened_event = Some ''other''"
  by (simp add: tokened_event_def sys_example_def initial_sys_def cx_example_def enrich_def
      getToken_def truthy_str_def TOKEN_KEY_def Let_def log_def)

section \<open>The gate and the queue\<close>

lemma emitted_append: "emitted (xs @ ys) = emitted xs @ emitted ys"
  by (induction xs rule: emitted.induct) simp_all

lemma emitted_Nil_iff: "(emitted es = []) = (\<forall>e. SocketEmit e \<notin> set es)"
  by (induction es rule: emitted.induct) auto

lemma emitted_drop_Nil: "emitted es = [] \<Longrightarrow> emitted (drop k es) = []"
  unfolding emitted_Nil_iff using in_set_dropD by fast

lemma since_final_local:
  assumes "final_mark st' = final_mark st" and "effects st' = effects st @ es" and "emitted es = []"
  shows "since_final st' = since_final st"
  using assms by (simp add: since_final_def emitted_append emitted_drop_Nil)

lemma since_final_emit:
  assumes "final_mark st' = final_mark st" and "effects st' = effects st @ [SocketEmit e]"
    and "final_mark st \<le> length (effects st)"
  shows "since_final st' = since_final st @ [e]"
  using assms by (simp add: since_final_def emitted_append)

lemma queueEvents_SocketObj:
  "queueEvents cx n evs (SocketObj sock) st =
     Some (case sock of None \<Rightarrow> Threw | Some s \<Rightarrow> Returned (),
           st\<lparr>event_queue := event_queue st @ evs, enqueued := enqueued st @ evs\<rparr>)"
  by (cases sock) simp_all

lemma processEvent_blocked:
  "event_processing st \<Longrightarrow> processEvent cx n sock st = Some (Returned (), st)"
  by (cases sock; cases n) simp_all

lemma processEvent_empty:
  "event_queue st = [] \<Longrightarrow> processEvent cx n sock st = Some (Returned (), st)"
  by (cases sock; cases n) simp_all

lemma queueEvents_blocked:
  "event_processing st \<Longrightarrow>
     queueEvents cx n evs SocketRef st =
       Some (Returned (), st\<lparr>event_queue := event_queue st @ evs, enqueued := enqueued st @ evs\<rparr>)"
  by (simp add: processEvent_blocked del: processEvent.simps)

lemma local_frame_log: "emitted [e] = [] \<Longrightarrow> local_frame st (log e st)"
  by (simp add: local_frame_def log_def)

lemma local_frame_push:
  "emitted [e] = [] \<Longrightarrow>
   local_frame st (log e st\<lparr>event_queue := event_queue (log e st) @ evs,
                            enqueued := enqueued (log e st) @ evs\<rparr>)"
  by (simp add: local_frame_def log_def)

lemma local_frame_refl: "local_frame st st"
  by (simp add: local_frame_def)

lemma local_frame_trans: "local_frame st st1 \<Longrightarrow> local_frame st1 st2 \<Longrightarrow> local_frame st st2"
  by (auto simp: local_frame_def emitted_append)

lemma applyEvent_special:
  assumes "name ev \<in> set special_names"
    and "applyEvent cx n ev sock st = Some (r, st')"
  shows "r \<noteq> Returned True \<and> local_frame st st'"
proof -
  from assms(1) consider
      "name ev = ''_redirect''" | "name ev = ''_console''" | "name ev = ''_remove_cookie''"
    | "name ev = ''_clear_local_storage''" | "name ev = ''_remove_local_storage''"
    | "name ev = ''_set_clipboard''" | "name ev = ''_download''" | "name ev = ''_alert''"
    | "name ev = ''_set_focus''" | "name ev = ''_set_value''" | "name ev = ''_call_script''"
    by (auto simp: special_names_def)
  then show ?thesis
  proof cases
    case 1
    with assms(2) show ?thesis
      by (auto simp: local_frame_log local_frame_refl split: if_splits)
  next
    case 2
    with assms(2) show ?thesis by (auto simp: local_frame_log)
  next
    case 3
    with assms(2) show ?thesis
      by (auto simp: queueEvents_SocketObj local_frame_push simp del: queueEvents.simps)
  next
    case 4
    with assms(2) show ?thesis
      by (auto simp: queueEvents_SocketObj local_frame_push local_frame_refl
          simp del: queueEvents.simps split: if_splits)
  next
    case 5
    with assms(2) show ?thesis
      by (auto simp: queueEvents_SocketObj local_frame_push local_frame_refl
          simp del: queueEvents.simps split: if_splits)
  next
    case 6
    with assms(2) show ?thesis
      by (auto simp: local_frame_log local_frame_refl split: if_splits)
  next
    case 7
    with assms(2) show ?thesis
      by (auto simp: local_frame_log local_frame_refl split: if_splits)
  next
    case 8
    with assms(2) show ?thesis
      by (auto simp: local_frame_log local_frame_refl split: if_splits)
  next
    case 9
    with assms(2) show ?thesis
      by (auto simp: local_frame_log local_frame_refl split: completion.splits jsval.splits)
  next
    case 10
    with assms(2) show ?thesis
      by (auto simp: local_frame_log local_frame_refl split: completion.splits jsval.splits)
  next
    case 11
    have "local_frame st (log (Callback c) (log (Eval d) st))" for c d
      by (simp add: local_frame_def log_def)
    with 11 assms(2) show ?thesis by (auto simp: local_frame_log split: if_splits)
  qed
qed

lemma getToken_local_frame: "local_frame st (snd (getToken u st))"
  by (simp add: local_frame_def getToken_frame)

lemma applyEvent_sent:
  assumes "applyEvent cx n ev sock st = Some (Returned True, st')"
  shows "\<exists>e'. sent_frame st e' st'"
proof (cases "name ev \<in> set special_names")
  case True
  with assms show ?thesis using applyEvent_special by blast
next
  case False
  from applyEvent_network [OF False, of cx n sock st] assms
  show ?thesis
    by (cases sock)
       (auto simp: sent_frame_def log_def enrich_eq getToken_frame simp del: applyEvent.simps)
qed

lemma applyEvent_not_sent:
  assumes "applyEvent cx n ev sock st = Some (r, st')" and "r \<noteq> Returned True"
  shows "local_frame st st'"
proof (cases "name ev \<in> set special_names")
  case True
  with assms show ?thesis using applyEvent_special by blast
next
  case False
  from applyEvent_network [OF False, of cx n sock st] assms
  show ?thesis
    by (cases sock) (auto simp: enrich_eq getToken_local_frame simp del: applyEvent.simps)
qed

lemma uploadFiles_begin_frame:
  "local_frame st (snd (uploadFiles_begin cx hdl files upload_id on_upload_progress st))"
proof -
  have g: "local_frame st (snd (getToken (new_uuid cx) st))" by (rule getToken_local_frame)
  show ?thesis
    using g
    by (cases "getToken (new_uuid cx) st")
       (auto simp: uploadFiles_begin_def local_frame_def log_def emitted_append
             split: completion.splits bool.splits jsval.splits)
qed

lemma applyRestEvent_frame:
  "applyRestEvent cx ev sock st = (r, st') \<Longrightarrow> r = Returned False \<and> local_frame st st'"
  using uploadFiles_begin_frame [of st cx]
  by (auto simp: applyRestEvent_def local_frame_refl split: if_splits)

text \<open>What one dispatch does, from the state \<open>processEvent\<close> hands over.\<close>

lemma dispatch_cases:
  assumes d: "(if handler_truthy e then Some (applyRestEvent cx e (Some s) st2)
               else applyEvent cx n e (Some s) st2) = Some (r, st3)"
  shows "(r = Returned True \<and> (\<exists>e'. sent_frame st2 e' st3))
       \<or> (r \<noteq> Returned True \<and> local_frame st2 st3)"
proof (cases "handler_truthy e")
  case True
  with d show ?thesis using applyRestEvent_frame [of cx e "Some s" st2 r st3] by auto
next
  case False
  with d have a: "applyEvent cx n e (Some s) st2 = Some (r, st3)" by simp
  show ?thesis
  proof (cases "r = Returned True")
    case True
    with a applyEvent_sent [of cx n e "Some s" st2 st3] show ?thesis by auto
  next
    case False
    with a applyEvent_not_sent [of cx n e "Some s" st2 r st3] show ?thesis by auto
  qed
qed

lemma processEvent_step:
  assumes "\<not> event_processing st" and "event_queue st = e # rest"
  shows "processEvent cx (Suc n) (Some s) st =
     (case (if handler_truthy e
            then Some (applyRestEvent cx e (Some s)
                         (st\<lparr>event_processing := True, event_queue := rest,
                             dequeued := dequeued st @ [e]\<rparr>))
            else applyEvent cx n e (Some s)
                   (st\<lparr>event_processing := True, event_queue := rest,
                       dequeued := dequeued st @ [e]\<rparr>)) of
        None \<Rightarrow> None
      | Some (Threw, st3) \<Rightarrow> Some (Threw, st3)
      | Some (Suspended, st3) \<Rightarrow>
          Some (Suspended,
                st3\<lparr>suspended := suspended st3 @
                       [AfterScript s (get_prop (payload e) ''callback'')]\<rparr>)
      | Some (Returned eventSent, st3) \<Rightarrow>
          if \<not> eventSent
          then (if overtaken cx (length (dequeued st))
                then Some (Suspended, st3\<lparr>suspended := suspended st3 @ [AfterDispatch s]\<rparr>)
                else processEvent cx n (Some s) (st3\<lparr>event_processing := False\<rparr>))
          else Some (Returned (), st3))"
  using assms by (simp del: applyEvent.simps)

text \<open>
  A property \<open>P\<close> of the states between dispatches is kept by \<open>processEvent\<close> when a
  property \<open>Q\<close> of the states during a dispatch takes it through every path.
\<close>

lemma processEvent_preserves:
  assumes run: "processEvent cx n sock st = Some (r, st')"
    and P: "P st"
    and deq: "\<And>st e rest. P st \<Longrightarrow> \<not> event_processing st \<Longrightarrow> event_queue st = e # rest \<Longrightarrow>
                Q (st\<lparr>event_processing := True, event_queue := rest,
                      dequeued := dequeued st @ [e]\<rparr>)"
    and loc: "\<And>st st'. Q st \<Longrightarrow> local_frame st st' \<Longrightarrow> Q st'"
    and emit: "\<And>st e' st'. Q st \<Longrightarrow> sent_frame st e' st' \<Longrightarrow> P st'"
    and thrw: "\<And>st. Q st \<Longrightarrow> P st"
    and susp: "\<And>st k. Q st \<Longrightarrow> P (st\<lparr>suspended := suspended st @ [k]\<rparr>)"
    and reset: "\<And>st. Q st \<Longrightarrow> P (st\<lparr>event_processing := False\<rparr>)"
  shows "P st'"
  using run P
proof (induction n arbitrary: st r st')
  case 0
  then show ?case by (cases sock) (auto split: if_splits)
next
  case (Suc n)
  show ?case
  proof (cases sock)
    case None
    with Suc.prems show ?thesis by simp
  next
    case (Some s)
    show ?thesis
    proof (cases "event_queue st = [] \<or> event_processing st")
      case True
      with Suc.prems Some show ?thesis by auto
    next
      case False
      then obtain e rest where q: "event_queue st = e # rest" and idle: "\<not> event_processing st"
        by (cases "event_queue st") auto
      let ?st2 = "st\<lparr>event_processing := True, event_queue := rest, dequeued := dequeued st @ [e]\<rparr>"
      from deq [OF Suc.prems(2) idle q] have q2: "Q ?st2" .
      from Suc.prems(1) Some processEvent_step [OF idle q, of cx n s]
      obtain d st3 where
        d: "(if handler_truthy e then Some (applyRestEvent cx e (Some s) ?st2)
             else applyEvent cx n e (Some s) ?st2) = Some (d, st3)"
        by (auto split: option.splits simp del: processEvent.simps applyEvent.simps)
      from Suc.prems(1) Some d processEvent_step [OF idle q, of cx n s]
      have res: "(case d of Threw \<Rightarrow> Some (Threw, st3)
                  | Suspended \<Rightarrow>
                      Some (Suspended,
                            st3\<lparr>suspended := suspended st3 @
                                   [AfterScript s (get_prop (payload e) ''callback'')]\<rparr>)
                  | Returned eventSent \<Rightarrow>
                      if \<not> eventSent
                      then (if overtaken cx (length (dequeued st))
                            then Some (Suspended, st3\<lparr>suspended := suspended st3 @ [AfterDispatch s]\<rparr>)
                            else processEvent cx n (Some s) (st3\<lparr>event_processing := False\<rparr>))
                      else Some (Returned (), st3)) = Some (r, st')"
        by (simp del: processEvent.simps applyEvent.simps)
      from dispatch_cases [OF d]
      show ?thesis
      proof
        assume sent: "d = Returned True \<and> (\<exists>e'. sent_frame ?st2 e' st3)"
        with res have "st' = st3" by simp
        with sent emit [OF q2] show ?thesis by blast
      next
        assume l: "d \<noteq> Returned True \<and> local_frame ?st2 st3"
        with loc [OF q2] have q3: "Q st3" by blast
        show ?thesis
        proof (cases d)
          case Threw
          with res thrw [OF q3] show ?thesis by simp
        next
          case Suspended
          with res susp [OF q3] show ?thesis by auto
        next
          case (Returned b)
          with l have nb: "\<not> b" by simp
          show ?thesis
          proof (cases "overtaken cx (length (dequeued st))")
            case True
            with res Returned nb susp [OF q3] show ?thesis by auto
          next
            case False
            with res Returned nb
            have rec: "processEvent cx n (Some s) (st3\<lparr>event_processing := False\<rparr>) = Some (r, st')"
              by (simp del: processEvent.simps)
            from Suc.IH [unfolded Some, OF rec reset [OF q3]] show ?thesis .
          qed
        qed
      qed
    qed
  qed
qed

lemma processEvent_socket:
  "processEvent cx n sock st = Some (r, st') \<Longrightarrow> socket_current st' = socket_current st"
proof -
  assume a: "processEvent cx n sock st = Some (r, st')"
  define c where "c = socket_current st"
  have "socket_current st' = c"
    by (rule processEvent_preserves [where P = "\<lambda>x. socket_current x = c"
          and Q = "\<lambda>x. socket_current x = c", OF a])
       (auto simp: c_def local_frame_def sent_frame_def)
  then show ?thesis by (simp add: c_def)
qed

lemma processEvent_fifo:
  assumes "processEvent cx n sock st = Some (r, st')" and "fifo_inv st"
  shows "fifo_inv st'"
  by (rule processEvent_preserves [where P = fifo_inv and Q = fifo_inv, OF assms])
     (auto simp: fifo_inv_def local_frame_def sent_frame_def)

lemma since_final_frame [simp]:
  "since_final (st\<lparr>event_processing := b\<rparr>) = since_final st"
  "since_final (st\<lparr>event_queue := q\<rparr>) = since_final st"
  "since_final (st\<lparr>dequeued := dq\<rparr>) = since_final st"
  "since_final (st\<lparr>enqueued := eq\<rparr>) = since_final st"
  "since_final (st\<lparr>suspended := su\<rparr>) = since_final st"
  "since_final (st\<lparr>awaiting := aw\<rparr>) = since_final st"
  "since_final (st\<lparr>socket_current := sc\<rparr>) = since_final st"
  "since_final (st\<lparr>router := ro\<rparr>) = since_final st"
  "since_final (st\<lparr>app_state := ap\<rparr>) = since_final st"
  "since_final (st\<lparr>upload_controllers := uc\<rparr>) = since_final st"
  by (simp_all add: since_final_def)

lemma gate_inv_idle:
  "gate_inv st \<Longrightarrow> \<not> event_processing st \<Longrightarrow> since_final st = [] \<and> suspended st = []"
  by (auto simp: gate_inv_def)

lemma local_frame_since_final: "local_frame st st' \<Longrightarrow> since_final st' = since_final st"
  unfolding local_frame_def using since_final_local by blast

lemma sent_frame_since_final:
  "sent_frame st e' st' \<Longrightarrow> final_mark st \<le> length (effects st) \<Longrightarrow>
     since_final st' = since_final st @ [e']"
  unfolding sent_frame_def using since_final_emit by blast

lemma dispatching_deq:
  assumes "gate_inv st" "\<not> event_processing st"
  shows "dispatching (st\<lparr>event_processing := True, event_queue := rest,
                        dequeued := dequeued st @ [e]\<rparr>)"
proof -
  from gate_inv_idle [OF assms] assms(1) show ?thesis
    by (simp add: dispatching_def gate_inv_def)
qed

lemma dispatching_local:
  assumes "dispatching st" "local_frame st st'"
  shows "dispatching st'"
proof -
  from assms(2) have "since_final st' = since_final st" by (rule local_frame_since_final)
  moreover from assms(2) have "final_mark st' = final_mark st" "suspended st' = suspended st"
    "event_processing st' = event_processing st" "length (effects st) \<le> length (effects st')"
    by (auto simp: local_frame_def)
  ultimately show ?thesis using assms(1) by (simp add: dispatching_def)
qed

lemma dispatching_sent:
  assumes "dispatching st" "sent_frame st e' st'"
  shows "gate_inv st' \<and> since_final st' = [e']"
proof -
  from assms have "since_final st' = [e']"
    using sent_frame_since_final [of st e' st'] by (simp add: dispatching_def)
  moreover from assms(2) have "final_mark st' = final_mark st" "suspended st' = suspended st"
    "event_processing st' = event_processing st" "length (effects st) \<le> length (effects st')"
    by (simp_all add: sent_frame_def)
  ultimately show ?thesis using assms(1) by (simp add: dispatching_def gate_inv_def)
qed

lemma processEvent_gate:
  assumes "processEvent cx n sock st = Some (r, st')" and "gate_inv st"
  shows "gate_inv st'"
proof (rule processEvent_preserves [where P = gate_inv and Q = dispatching, OF assms])
  fix st e rest
  assume "gate_inv st" "\<not> event_processing st" "event_queue st = e # rest"
  then show "dispatching (st\<lparr>event_processing := True, event_queue := rest,
                              dequeued := dequeued st @ [e]\<rparr>)"
    by (simp add: dispatching_deq)
next
  fix st st'
  assume "dispatching st" "local_frame st st'"
  then show "dispatching st'" by (rule dispatching_local)
next
  fix st e' st'
  assume "dispatching st" "sent_frame st e' st'"
  then show "gate_inv st'" using dispatching_sent by blast
next
  fix st
  assume "dispatching st"
  then show "gate_inv st" by (simp add: dispatching_def gate_inv_def)
next
  fix st k
  assume "dispatching st"
  then show "gate_inv (st\<lparr>suspended := suspended st @ [k]\<rparr>)"
    by (simp add: dispatching_def gate_inv_def)
next
  fix st
  assume "dispatching st"
  then show "gate_inv (st\<lparr>event_processing := False\<rparr>)"
    by (simp add: dispatching_def gate_inv_def)
qed

lemma processEvent_await:
  assumes "processEvent cx n sock st = Some (r, st')" and "await_inv st"
  shows "await_inv st'"
proof (rule processEvent_preserves
         [where P = await_inv and Q = "\<lambda>x. dispatching x \<and> awaiting x = []", OF assms])
  fix st e rest
  assume a: "await_inv st" "\<not> event_processing st" "event_queue st = e # rest"
  then have "since_final st = []" using gate_inv_idle [of st] by (simp add: await_inv_def)
  with a have "awaiting st = []" by (simp add: await_inv_def)
  with a show "dispatching (st\<lparr>event_processing := True, event_queue := rest,
                              dequeued := dequeued st @ [e]\<rparr>)
           \<and> awaiting (st\<lparr>event_processing := True, event_queue := rest,
                              dequeued := dequeued st @ [e]\<rparr>) = []"
    by (simp add: dispatching_deq await_inv_def)
next
  fix st st'
  assume "dispatching st \<and> awaiting st = []" "local_frame st st'"
  then show "dispatching st' \<and> awaiting st' = []"
    using dispatching_local [of st st'] by (simp add: local_frame_def)
next
  fix st e' st'
  assume a: "dispatching st \<and> awaiting st = []" "sent_frame st e' st'"
  then have "gate_inv st' \<and> since_final st' = [e']" using dispatching_sent by blast
  moreover from a have "awaiting st' = [e']" by (simp add: sent_frame_def)
  ultimately show "await_inv st'" by (simp add: await_inv_def)
next
  fix st
  assume "dispatching st \<and> awaiting st = []"
  then show "await_inv st" by (simp add: dispatching_def gate_inv_def await_inv_def)
next
  fix st k
  assume "dispatching st \<and> awaiting st = []"
  then show "await_inv (st\<lparr>suspended := suspended st @ [k]\<rparr>)"
    by (simp add: dispatching_def gate_inv_def await_inv_def)
next
  fix st
  assume "dispatching st \<and> awaiting st = []"
  then show "await_inv (st\<lparr>event_processing := False\<rparr>)"
    by (simp add: dispatching_def gate_inv_def await_inv_def)
qed

lemma emitted_storage_write: "emitted (storage_write cs w sub k v) = []"
  by (simp add: storage_write_def Let_def split: option.splits)

lemma emitted_concat: "(\<And>x. x \<in> set xss \<Longrightarrow> emitted x = []) \<Longrightarrow> emitted (concat xss) = []"
  by (induction xss) (simp_all add: emitted_append)

lemma emitted_applyClientStorageDelta: "emitted (applyClientStorageDelta cs w d) = []"
  unfolding applyClientStorageDelta_def
  by (auto intro!: emitted_concat simp: emitted_storage_write)

lemma on_event_eq:
  "on_event cx n upd st =
     (case delta upd of
        None \<Rightarrow> Some (Threw, st)
      | Some d \<Rightarrow>
          (case events upd of
             None \<Rightarrow> Some (Returned (), flagged cx upd d st)
           | Some evs \<Rightarrow>
               (case queueEvents cx n evs SocketRef (flagged cx upd d st) of
                  None \<Rightarrow> None
                | Some (c, st4) \<Rightarrow> Some (Returned (), st4))))"
  by (simp add: on_event_def flagged_def Let_def split: option.splits)

lemma since_final_flagged:
  "since_final (flagged cx upd d st) = (if final upd = Some True then [] else since_final st)"
  by (simp add: since_final_def flagged_def emitted_append emitted_applyClientStorageDelta
      emitted_drop_Nil)

lemma flagged_frame:
  "event_queue (flagged cx upd d st) = event_queue st"
  "enqueued (flagged cx upd d st) = enqueued st"
  "dequeued (flagged cx upd d st) = dequeued st"
  "awaiting (flagged cx upd d st) = awaiting st"
  "suspended (flagged cx upd d st) = suspended st"
  "socket_current (flagged cx upd d st) = socket_current st"
  "event_processing (flagged cx upd d st) = (\<not> (final upd = Some True))"
  "final_mark (flagged cx upd d st) \<le> length (effects (flagged cx upd d st))
     = (final upd = Some True \<or> final_mark st \<le> length (effects st @
          applyClientStorageDelta (storage_config cx) (window st \<noteq> None) d))"
  by (simp_all add: flagged_def)

lemma fifo_inv_flagged: "fifo_inv st \<Longrightarrow> fifo_inv (flagged cx upd d st)"
  by (simp add: fifo_inv_def flagged_frame)

lemma gate_inv_flagged:
  assumes "gate_inv st" and "final upd = Some True \<longrightarrow> suspended st = []"
  shows "gate_inv (flagged cx upd d st)"
  using assms
  by (auto simp: gate_inv_def since_final_flagged flagged_frame)



lemma pushed_inv:
  "fifo_inv st \<Longrightarrow>
     fifo_inv (st\<lparr>event_queue := event_queue st @ evs, enqueued := enqueued st @ evs\<rparr>)"
  "gate_inv st \<Longrightarrow>
     gate_inv (st\<lparr>event_queue := event_queue st @ evs, enqueued := enqueued st @ evs\<rparr>)"
  "await_inv st \<Longrightarrow>
     await_inv (st\<lparr>event_queue := event_queue st @ evs, enqueued := enqueued st @ evs\<rparr>)"
  by (simp_all add: fifo_inv_def gate_inv_def await_inv_def)

lemma queueEvents_ref:
  "queueEvents cx n evs SocketRef st =
     processEvent cx n (socket_current st)
       (st\<lparr>event_queue := event_queue st @ evs, enqueued := enqueued st @ evs\<rparr>)"
  by (simp del: processEvent.simps)

lemma queueEvents_ref_inv:
  assumes "queueEvents cx n evs SocketRef st = Some (r, st')"
  shows "fifo_inv st \<Longrightarrow> fifo_inv st'" "gate_inv st \<Longrightarrow> gate_inv st'"
    "await_inv st \<Longrightarrow> await_inv st'"
proof -
  from assms have p: "processEvent cx n (socket_current st)
       (st\<lparr>event_queue := event_queue st @ evs, enqueued := enqueued st @ evs\<rparr>) = Some (r, st')"
    by (simp only: queueEvents_ref)
  show "fifo_inv st \<Longrightarrow> fifo_inv st'"
    by (rule processEvent_fifo [OF p]) (rule pushed_inv)
  show "gate_inv st \<Longrightarrow> gate_inv st'"
    by (rule processEvent_gate [OF p]) (rule pushed_inv)
  show "await_inv st \<Longrightarrow> await_inv st'"
    by (rule processEvent_await [OF p]) (rule pushed_inv)
qed

lemma on_event_inv:
  assumes "on_event cx n upd st = Some (r, st')"
  shows "fifo_inv st \<Longrightarrow> fifo_inv st'"
    and "gate_inv st \<Longrightarrow> (final upd = Some True \<longrightarrow> suspended st = []) \<Longrightarrow> gate_inv st'"
proof -
  show "fifo_inv st'" if f: "fifo_inv st"
  proof (cases "delta upd")
    case None
    with assms f show ?thesis by (simp add: on_event_eq)
  next
    case (Some d)
    show ?thesis
    proof (cases "events upd")
      case None
      with Some assms fifo_inv_flagged [OF f] show ?thesis by (auto simp: on_event_eq)
    next
      case (Some evs)
      with \<open>delta upd = Some d\<close> assms
      obtain c where "queueEvents cx n evs SocketRef (flagged cx upd d st) = Some (c, st')"
        by (auto simp: on_event_eq split: option.splits simp del: queueEvents.simps)
      from queueEvents_ref_inv(1) [OF this fifo_inv_flagged [OF f]] show ?thesis .
    qed
  qed
  show "gate_inv st'" if g: "gate_inv st" and c: "final upd = Some True \<longrightarrow> suspended st = []"
  proof (cases "delta upd")
    case None
    with assms g show ?thesis by (simp add: on_event_eq)
  next
    case (Some d)
    show ?thesis
    proof (cases "events upd")
      case None
      with Some assms gate_inv_flagged [OF g c] show ?thesis by (auto simp: on_event_eq)
    next
      case (Some evs)
      with \<open>delta upd = Some d\<close> assms
      obtain c' where "queueEvents cx n evs SocketRef (flagged cx upd d st) = Some (c', st')"
        by (auto simp: on_event_eq split: option.splits simp del: queueEvents.simps)
      from queueEvents_ref_inv(2) [OF this gate_inv_flagged [OF g c]] show ?thesis .
    qed
  qed
qed


lemma uploadFiles_settle_frame:
  "local_frame st (snd (uploadFiles_settle upload_id outcome st))"
  by (cases outcome) (simp_all add: uploadFiles_settle_def local_frame_def log_def)

lemma local_frame_inv:
  assumes "local_frame st st'"
  shows "fifo_inv st \<Longrightarrow> fifo_inv st'" "gate_inv st \<Longrightarrow> gate_inv st'"
    "await_inv st \<Longrightarrow> await_inv st'"
proof -
  from assms have sf: "since_final st' = since_final st" by (rule local_frame_since_final)
  from assms show "fifo_inv st \<Longrightarrow> fifo_inv st'"
    by (auto simp: fifo_inv_def local_frame_def)
  from assms sf show g: "gate_inv st \<Longrightarrow> gate_inv st'"
    by (auto simp: gate_inv_def local_frame_def)
  from assms sf g show "await_inv st \<Longrightarrow> await_inv st'"
    by (auto simp: await_inv_def local_frame_def)
qed

lemma resume_eq:
  "resume cx n i st =
     (if i < length (suspended st)
      then processEvent cx n (Some (resumed_socket (suspended st ! i))) (resumed i st)
      else Some (Returned (), st))"
  by (simp add: resume_def resumed_def resumed_socket_def split: continuation.splits
      del: processEvent.simps)

lemma resumed_frame:
  "event_queue (resumed i st) = event_queue st"
  "enqueued (resumed i st) = enqueued st"
  "dequeued (resumed i st) = dequeued st"
  "awaiting (resumed i st) = awaiting st"
  "final_mark (resumed i st) = final_mark st"
  "socket_current (resumed i st) = socket_current st"
  "\<not> event_processing (resumed i st)"
  "suspended (resumed i st) = take i (suspended st) @ drop (Suc i) (suspended st)"
  "\<exists>es. effects (resumed i st) = effects st @ es \<and> emitted es = []"
  by (simp_all add: resumed_def log_def split: continuation.splits)

lemma since_final_resumed: "since_final (resumed i st) = since_final st"
  using resumed_frame(9) [of i st] resumed_frame(5) [of i st] since_final_local by blast

lemma resumed_inv:
  assumes "i < length (suspended st)"
  shows "fifo_inv st \<Longrightarrow> fifo_inv (resumed i st)" "gate_inv st \<Longrightarrow> gate_inv (resumed i st)"
    "await_inv st \<Longrightarrow> await_inv (resumed i st)"
proof -
  show "fifo_inv st \<Longrightarrow> fifo_inv (resumed i st)"
    by (simp add: fifo_inv_def resumed_frame)
  show g: "gate_inv (resumed i st)" if "gate_inv st"
  proof -
    from that assms have l: "length (suspended st) = 1" and s: "since_final st = []"
      by (auto simp: gate_inv_def)
    from l obtain k where k: "suspended st = [k]" by (cases "suspended st") simp_all
    with assms have "i = 0" by simp
    with k have e: "suspended (resumed i st) = []" by (simp add: resumed_frame)
    from resumed_frame(9) [of i st]
    have "length (effects st) \<le> length (effects (resumed i st))" by auto
    with that have m: "final_mark (resumed i st) \<le> length (effects (resumed i st))"
      by (simp add: gate_inv_def resumed_frame)
    from s have "since_final (resumed i st) = []" by (simp add: since_final_resumed)
    with e m show ?thesis by (simp add: gate_inv_def)
  qed
  show "await_inv (resumed i st)" if "await_inv st"
    using that g by (simp add: await_inv_def since_final_resumed resumed_frame)
qed

lemma resume_inv:
  assumes "resume cx n i st = Some (r, st')"
  shows "fifo_inv st \<Longrightarrow> fifo_inv st'" "gate_inv st \<Longrightarrow> gate_inv st'"
    "await_inv st \<Longrightarrow> await_inv st'"
proof -
  show "fifo_inv st'" if "fifo_inv st"
  proof (cases "i < length (suspended st)")
    case True
    with assms have "processEvent cx n (Some (resumed_socket (suspended st ! i))) (resumed i st)
                       = Some (r, st')"
      by (simp add: resume_eq del: processEvent.simps)
    from processEvent_fifo [OF this resumed_inv(1) [OF True that]] show ?thesis .
  next
    case False
    with assms that show ?thesis by (simp add: resume_eq)
  qed
  show "gate_inv st'" if "gate_inv st"
  proof (cases "i < length (suspended st)")
    case True
    with assms have "processEvent cx n (Some (resumed_socket (suspended st ! i))) (resumed i st)
                       = Some (r, st')"
      by (simp add: resume_eq del: processEvent.simps)
    from processEvent_gate [OF this resumed_inv(2) [OF True that]] show ?thesis .
  next
    case False
    with assms that show ?thesis by (simp add: resume_eq)
  qed
  show "await_inv st'" if "await_inv st"
  proof (cases "i < length (suspended st)")
    case True
    with assms have "processEvent cx n (Some (resumed_socket (suspended st ! i))) (resumed i st)
                       = Some (r, st')"
      by (simp add: resume_eq del: processEvent.simps)
    from processEvent_await [OF this resumed_inv(3) [OF True that]] show ?thesis .
  next
    case False
    with assms that show ?thesis by (simp add: resume_eq)
  qed
qed

lemma step_fifo:
  assumes "step cx n a st = Some st'" and "fifo_inv st"
  shows "fifo_inv st'"
proof (cases a)
  case (Connect s)
  with assms show ?thesis by (auto simp: connect_def fifo_inv_def)
next
  case (AddEvents evs)
  with assms(1) obtain r where "queueEvents cx n evs SocketRef st = Some (r, st')"
    by (auto simp del: queueEvents.simps)
  from queueEvents_ref_inv(1) [OF this assms(2)] show ?thesis .
next
  case Drain
  with assms(1) obtain r where "processEvent cx n (socket_current st) st = Some (r, st')"
    by (auto simp del: processEvent.simps)
  from processEvent_fifo [OF this assms(2)] show ?thesis .
next
  case (Message upd)
  with assms(1) obtain r where "on_event cx n upd (answered upd st) = Some (r, st')" by auto
  from on_event_inv(1) [OF this] assms(2) show ?thesis
    by (simp add: fifo_inv_def answered_def)
next
  case (UploadLine upd)
  with assms(1) obtain r where "on_event cx n upd st = Some (r, st')" by auto
  from on_event_inv(1) [OF this assms(2)] show ?thesis .
next
  case (UploadSettled upload_id outcome)
  with assms local_frame_inv(1) [OF uploadFiles_settle_frame [of st upload_id outcome]]
  show ?thesis by auto
next
  case (RouteChanged r)
  with assms show ?thesis by (auto simp: fifo_inv_def)
next
  case (Resume i)
  with assms(1) obtain r where "resume cx n i st = Some (r, st')" by auto
  from resume_inv(1) [OF this assms(2)] show ?thesis .
qed



lemma run_fifo:
  "run cx n acts st = Some st' \<Longrightarrow> fifo_inv st \<Longrightarrow> fifo_inv st'"
proof (induction acts arbitrary: st)
  case Nil
  then show ?case by simp
next
  case (Cons a acts)
  from Cons.prems(1) obtain st1 where s: "step cx n a st = Some st1"
    and r: "run cx n acts st1 = Some st'"
    by (auto split: option.splits simp del: step.simps)
  from step_fifo [OF s Cons.prems(2)] Cons.IH [OF r] show ?case by simp
qed




lemma initial_inv:
  "fifo_inv (initial_sys w r a)" "gate_inv (initial_sys w r a)" "await_inv (initial_sys w r a)"
  by (simp_all add: gate_inv_def fifo_inv_def await_inv_def initial_sys_def since_final_def)



lemma processEvent_sends_head:
  assumes "\<not> event_processing st" and "event_queue st = e # rest"
    and "\<not> handler_truthy e" and "name e \<notin> set special_names"
  shows "\<exists>e' st'. processEvent cx (Suc n) (Some s) st = Some (Returned (), st')
           \<and> event_processing st' \<and> event_queue st' = rest
           \<and> awaiting st' = awaiting st @ [e']
           \<and> name e' = name e \<and> payload e' = payload e
           \<and> effects st' = effects st @ [SocketEmit e']
           \<and> final_mark st' = final_mark st
           \<and> dequeued st' = dequeued st @ [e]"
  unfolding processEvent_step [OF assms(1,2)]
  using assms(3) applyEvent_network [OF assms(4), of cx n "Some s"]
  by (simp add: enrich_eq log_def getToken_frame del: applyEvent.simps)



lemma scenario_final_eval:
  "map_option observe (run cx_example 5 (scenario @ [Message final_update]) sys_example)
     = Some ([''state.b''], [''state.b''], True, [], [''_console'', ''state.a'', ''state.b''],
             [''_console'', ''state.a'', ''state.b''], 0)"
  by code_simp





text \<open>
  The second run is not calm; without the update in between, the script is suspended with
  the gate closed, and when it resumes \<open>state.a\<close> alone is emitted. A local event whose
  dispatch is overtaken by an update with \<open>final = true\<close>, as by the next line of the
  same progress tick, ends like the script of the second run.
\<close>

lemma script_scenario_not_calm: "\<not> calm cx_script 5 script_scenario sys_example"
  by code_simp

lemma script_alone_eval:
  "calm cx_script 5 script_alone sys_example
   \<and> map_option observe (run cx_script 5 (take 2 script_alone) sys_example)
     = Some ([], [], True, [''state.a'', ''state.b''], [''_call_script''],
             [''_call_script'', ''state.a'', ''state.b''], 1)
   \<and> map_option observe (run cx_script 5 script_alone sys_example)
     = Some ([''state.a''], [''state.a''], True, [''state.b''], [''_call_script'', ''state.a''],
             [''_call_script'', ''state.a'', ''state.b''], 0)"
  by code_simp

lemma dispatch_overtaken_eval:
  "map_option observe (run cx_overtaken 5 overtaken_scenario sys_example)
     = Some ([''state.a'', ''state.b''], [''state.a'', ''state.b''], True, [],
             [''_console'', ''state.a'', ''state.b''],
             [''_console'', ''state.a'', ''state.b''], 0)"
  by code_simp

text \<open>
  C2. \<open>queueEvents\<close> pushes at the tail (recorded in \<open>enqueued\<close>) and \<open>processEvent\<close>
  shifts from the head (recorded in \<open>dequeued\<close>, at the moment of dispatch). In every
  state the engine reaches, whatever mix of UI events, follow-up events of inbound
  updates, re-enqueued initial events and drains led there, the events dispatched so far
  are exactly the first events enqueued, in the same order, and the queue holds the rest.
  Seen one call at a time: while the gate is closed \<open>addEvents\<close> only appends its events
  to the queue, and from an idle state \<open>processEvent\<close> dispatches the head event and
  leaves the rest of the queue.
\<close>

theorem fifo_order:
  assumes "run cx fuel acts (initial_sys w r a) = Some st"
  shows "enqueued st = dequeued st @ event_queue st
       \<and> dequeued st = take (length (dequeued st)) (enqueued st)
       \<and> event_queue st = drop (length (dequeued st)) (enqueued st)
       \<and> (event_processing st \<longrightarrow>
            step cx n (AddEvents evs) st =
              Some (st\<lparr>event_queue := event_queue st @ evs, enqueued := enqueued st @ evs\<rparr>))
       \<and> (\<forall>e rest s. \<not> event_processing st \<and> event_queue st = e # rest
              \<and> \<not> handler_truthy e \<and> name e \<notin> set special_names \<longrightarrow>
              (\<exists>st'. processEvent cx (Suc n) (Some s) st = Some (Returned (), st')
                 \<and> event_queue st' = rest \<and> dequeued st' = dequeued st @ [e]))"
proof -
  from run_fifo [OF assms initial_inv(1)] have f: "fifo_inv st" .
  from f have b1: "enqueued st = dequeued st @ event_queue st" by (simp add: fifo_inv_def)
  then have b2: "dequeued st = take (length (dequeued st)) (enqueued st)"
    and b3: "event_queue st = drop (length (dequeued st)) (enqueued st)"
    by simp_all
  have b4: "event_processing st \<longrightarrow>
            step cx n (AddEvents evs) st =
              Some (st\<lparr>event_queue := event_queue st @ evs, enqueued := enqueued st @ evs\<rparr>)"
    by (simp add: queueEvents_blocked del: queueEvents.simps)
  have b5: "\<forall>e rest s. \<not> event_processing st \<and> event_queue st = e # rest
              \<and> \<not> handler_truthy e \<and> name e \<notin> set special_names \<longrightarrow>
              (\<exists>st'. processEvent cx (Suc n) (Some s) st = Some (Returned (), st')
                 \<and> event_queue st' = rest \<and> dequeued st' = dequeued st @ [e])"
  proof (intro allI impI)
    fix e rest s
    assume h: "\<not> event_processing st \<and> event_queue st = e # rest
              \<and> \<not> handler_truthy e \<and> name e \<notin> set special_names"
    with processEvent_sends_head [of st e rest cx n s]
    show "\<exists>st'. processEvent cx (Suc n) (Some s) st = Some (Returned (), st')
                 \<and> event_queue st' = rest \<and> dequeued st' = dequeued st @ [e]"
      by blast
  qed
  show ?thesis by (intro conjI b1 b2 b3 b4 b5)
qed

text \<open>After the final update \<open>state.b\<close> has been sent too: three events in, the same three
  out, in order.\<close>

theorem fifo_order_witness:
  "\<exists>st. run cx_example 5 (scenario @ [Message final_update]) sys_example = Some st
        \<and> enqueued st = dequeued st @ event_queue st
        \<and> map name (enqueued st) = [''_console'', ''state.a'', ''state.b'']
        \<and> map name (dequeued st) = [''_console'', ''state.a'', ''state.b'']"
proof -
  from scenario_final_eval obtain st where
    r: "run cx_example 5 (scenario @ [Message final_update]) sys_example = Some st"
    and o: "observe st = ([''state.b''], [''state.b''], True, [],
             [''_console'', ''state.a'', ''state.b''],
             [''_console'', ''state.a'', ''state.b''], 0)"
    by auto
  from r have "run cx_example 5 (scenario @ [Message final_update])
                 (initial_sys (Some \<lparr>sessionStorage = [(''token'', ''session'')]\<rparr>)
                    [(''pathname'', JStr ''/'')] []) = Some st"
    by (simp add: sys_example_def)
  from fifo_order [OF this]
  have f: "enqueued st = dequeued st @ event_queue st" by (rule conjunct1)
  from o have p: "map name (enqueued st) = [''_console'', ''state.a'', ''state.b'']"
    "map name (dequeued st) = [''_console'', ''state.a'', ''state.b'']"
    by (simp_all add: observe_def)
  show ?thesis by (rule exI [of _ st]) (intro conjI r f p)
qed

section \<open>The response cursor\<close>







lemma trimR_nonempty: "s \<noteq> [] \<Longrightarrow> \<not> is_ws (hd s) \<Longrightarrow> trimR s \<noteq> []"
  by (cases s) (auto simp: trimR_def dropWhile_append)















lemma filter_lines_take:
  "filter (\<lambda>c. c \<in> set lines) (take m lines) = take m lines"
  by (rule filter_True) (meson in_set_takeD)









lemma on_message_without_delta:
  assumes "json5_parse cx l = Some upd" and "delta upd = None"
  shows "on_message cx fuel l st = Some (Threw, st)"
  using assms by (simp add: on_message_def on_event_eq)






end
